theory Spec2Isabelle
  imports Complex_Main "HOL-Library.Multiset" "HOL-Library.Log_Nat"
begin

section \<open>JavaScript values\<close>

text \<open>
  A JavaScript string is a sequence of UTF-16 code units; \<open>length\<close> counts code units, as
  \<^verbatim>\<open>String.prototype.length\<close> does.  The bullet characters of the list patterns lie
  outside Latin-1, so a code unit is a natural number rather than a \<^typ>\<open>char\<close>.
\<close>

type_synonym jsstring = "nat list"

definition str :: "string \<Rightarrow> jsstring" where
  "str s = map of_char s"

text \<open>
  A coordinate read from a PDF.js text item is a number, or \<^verbatim>\<open>undefined\<close> when the item
  lacks it; the accumulators of the clustering loops start at \<^verbatim>\<open>null\<close>.  A coordinate or a
  font size is a real.  The clustering loops and the sorts by coordinate only compare a
  difference of two coordinates with a threshold or with zero, and the difference is
  taken exactly there; \<open>None\<close> in a \<^typ>\<open>real option\<close> stands for \<^verbatim>\<open>NaN\<close>.  The \<open>order\<close> values of
  the reading order are sums that are compared with each other: they are rounded as
  IEEE doubles are (see the section on the reading order).
\<close>

datatype jsnum = Null | Undefined | Num real

fun ToNumber :: "jsnum \<Rightarrow> real option" where
  "ToNumber Null = Some 0"
| "ToNumber Undefined = None"
| "ToNumber (Num r) = Some r"

definition js_minus :: "jsnum \<Rightarrow> jsnum \<Rightarrow> real option" where
  "js_minus a b =
     (case ToNumber a of None \<Rightarrow> None
      | Some u \<Rightarrow> (case ToNumber b of None \<Rightarrow> None | Some v \<Rightarrow> Some (u - v)))"

text \<open>\<^verbatim>\<open>Math.abs(d) < k\<close> and \<^verbatim>\<open>Math.abs(d) > k\<close>: every comparison with \<^verbatim>\<open>NaN\<close> is false.\<close>

definition abs_lt :: "real option \<Rightarrow> real \<Rightarrow> bool" where
  "abs_lt d k = (case d of None \<Rightarrow> False | Some v \<Rightarrow> \<bar>v\<bar> < k)"

definition abs_gt :: "real option \<Rightarrow> real \<Rightarrow> bool" where
  "abs_gt d k = (case d of None \<Rightarrow> False | Some v \<Rightarrow> \<bar>v\<bar> > k)"

text \<open>\<^verbatim>\<open>a > b\<close> on coordinates.\<close>

definition js_gt :: "jsnum \<Rightarrow> jsnum \<Rightarrow> bool" where
  "js_gt a b =
     (case ToNumber a of None \<Rightarrow> False
      | Some u \<Rightarrow> (case ToNumber b of None \<Rightarrow> False | Some v \<Rightarrow> u > v))"

text \<open>The value of a sort comparator: \<^verbatim>\<open>Array.prototype.sort\<close> reads \<^verbatim>\<open>NaN\<close> as \<open>+0\<close>.\<close>

definition compare_result :: "real option \<Rightarrow> real" where
  "compare_result d = (case d of None \<Rightarrow> 0 | Some v \<Rightarrow> v)"

subsection \<open>Strings\<close>

text \<open>
  The characters matched by \<^verbatim>\<open>\s\<close> and stripped by \<^verbatim>\<open>trim()\<close>: ECMAScript's WhiteSpace and
  LineTerminator code points.
\<close>

definition is_space :: "nat \<Rightarrow> bool" where
  "is_space c =
     (c = 9 \<or> c = 10 \<or> c = 11 \<or> c = 12 \<or> c = 13 \<or> c = 32 \<or> c = 160 \<or> c = 5760
      \<or> (8192 \<le> c \<and> c \<le> 8202) \<or> c = 8232 \<or> c = 8233 \<or> c = 8239 \<or> c = 8287
      \<or> c = 12288 \<or> c = 65279)"

definition is_digit :: "nat \<Rightarrow> bool" where
  "is_digit c = (48 \<le> c \<and> c \<le> 57)"

definition is_letter :: "nat \<Rightarrow> bool" where
  "is_letter c = ((65 \<le> c \<and> c \<le> 90) \<or> (97 \<le> c \<and> c \<le> 122))"

text \<open>
  Matching ASCII letters under the \<open>i\<close> flag: a code unit outside ASCII never folds to an
  ASCII letter.
\<close>

definition lower :: "nat \<Rightarrow> nat" where
  "lower c = (if 65 \<le> c \<and> c \<le> 90 then c + 32 else c)"

definition trim :: "jsstring \<Rightarrow> jsstring" where
  "trim s = rev (dropWhile is_space (rev (dropWhile is_space s)))"

fun js_join :: "jsstring \<Rightarrow> jsstring list \<Rightarrow> jsstring" where
  "js_join sep [] = []"
| "js_join sep [s] = s"
| "js_join sep (s # t # ts) = s @ sep @ js_join sep (t # ts)"

definition starts_with :: "jsstring \<Rightarrow> jsstring \<Rightarrow> bool" where
  "starts_with p s = (take (length p) s = p)"

definition starts_with_ci :: "jsstring \<Rightarrow> jsstring \<Rightarrow> bool" where
  "starts_with_ci p s = (map lower (take (length p) s) = map lower p)"

subsection \<open>Sorting with a comparator\<close>

text \<open>
  \<^verbatim>\<open>Array.prototype.sort(cmp)\<close> is stable; it is modelled by a stable insertion sort: the
  elements are inserted from the last to the first, each before the first element it does
  not compare greater than.  For a comparator that is a consistent order on the array
  every conforming sort returns this list; for other comparators ECMAScript leaves the
  order to the implementation, and no element is lost or added.
\<close>

fun js_insort :: "('a \<Rightarrow> 'a \<Rightarrow> real) \<Rightarrow> 'a \<Rightarrow> 'a list \<Rightarrow> 'a list" where
  "js_insort cmp a [] = [a]"
| "js_insort cmp a (b # bs) = (if cmp a b \<le> 0 then a # b # bs else b # js_insort cmp a bs)"

definition js_sort :: "('a \<Rightarrow> 'a \<Rightarrow> real) \<Rightarrow> 'a list \<Rightarrow> 'a list" where
  "js_sort cmp xs = foldr (js_insort cmp) xs []"

section \<open>PDFProcessor: lines and paragraphs\<close>

record token =
  t_text :: jsstring
  t_x :: jsnum
  t_y :: jsnum
  t_width :: real
  t_height :: real
  t_fontName :: jsstring
  t_fontSize :: real
  t_bold :: bool
  t_italic :: bool

record line =
  l_y :: jsnum
  l_items :: "token list"
  l_text :: jsstring
  l_fontSize :: real
  l_bold :: bool
  l_italic :: bool

record para =
  p_lines :: "line list"
  p_text :: jsstring
  p_fontSize :: real
  p_bold :: bool
  p_italic :: bool
  p_y :: jsnum

record page_content =
  c_lines :: "line list"
  c_paragraphs :: "para list"

subsection \<open>groupLinesIntoParagraphs\<close>

definition make_paragraph :: "line \<Rightarrow> line list \<Rightarrow> para" where
  "make_paragraph first rest =
     \<lparr> p_lines = first # rest,
       p_text = trim (js_join (str '' '') (map l_text (first # rest))),
       p_fontSize = l_fontSize first,
       p_bold = l_bold first,
       p_italic = l_italic first,
       p_y = l_y first \<rparr>"

text \<open>The guarded push \<^verbatim>\<open>if (currentParagraph.length > 0) paragraphs.push({...})\<close>.\<close>

definition push_paragraph :: "para list \<Rightarrow> line list \<Rightarrow> para list" where
  "push_paragraph paragraphs currentParagraph =
     (case currentParagraph of [] \<Rightarrow> paragraphs
      | first # rest \<Rightarrow> paragraphs @ [make_paragraph first rest])"

definition lineSpacing :: "jsnum \<Rightarrow> line \<Rightarrow> real option" where
  "lineSpacing lastY lin = (if lastY \<noteq> Null then js_minus lastY (l_y lin) else Some 0)"

definition isNewParagraph :: "jsnum \<Rightarrow> line list \<Rightarrow> line \<Rightarrow> bool" where
  "isNewParagraph lastY currentParagraph lin =
     (abs_gt (lineSpacing lastY lin) 20
      \<or> trim (l_text lin) = []
      \<or> (case currentParagraph of [] \<Rightarrow> False
          | first # rest \<Rightarrow> \<bar>l_fontSize lin - l_fontSize first\<bar> > 2))"

text \<open>
  The loop over the lines, with its three variables \<open>paragraphs\<close>, \<open>currentParagraph\<close> and
  \<open>lastY\<close>; the result is the state after the last line.
\<close>

fun paragraph_loop ::
  "line list \<Rightarrow> para list \<Rightarrow> line list \<Rightarrow> jsnum \<Rightarrow> para list \<times> line list"
where
  "paragraph_loop [] paragraphs currentParagraph lastY = (paragraphs, currentParagraph)"
| "paragraph_loop (lin # lns) paragraphs currentParagraph lastY =
     (let flush = isNewParagraph lastY currentParagraph lin \<and> currentParagraph \<noteq> [];
          paragraphs' = (if flush then push_paragraph paragraphs currentParagraph else paragraphs);
          current' = (if flush then [] else currentParagraph);
          current'' = (if trim (l_text lin) \<noteq> [] then current' @ [lin] else current')
      in paragraph_loop lns paragraphs' current'' (l_y lin))"

definition groupLinesIntoParagraphs :: "line list \<Rightarrow> para list" where
  "groupLinesIntoParagraphs lns =
     (if lns = [] then []
      else case paragraph_loop lns [] [] Null of
             (paragraphs, currentParagraph) \<Rightarrow> push_paragraph paragraphs currentParagraph)"

subsection \<open>processTextItems\<close>

text \<open>The comparator of \<^verbatim>\<open>textItems.sort\<close>: left to right within 5 units, else top to bottom.\<close>

definition item_compare :: "token \<Rightarrow> token \<Rightarrow> real" where
  "item_compare a b =
     (if abs_lt (js_minus (t_y a) (t_y b)) 5
      then compare_result (js_minus (t_x a) (t_x b))
      else compare_result (js_minus (t_y b) (t_y a)))"

definition make_line :: "jsnum \<Rightarrow> token \<Rightarrow> token list \<Rightarrow> line" where
  "make_line currentY first rest =
     \<lparr> l_y = currentY,
       l_items = first # rest,
       l_text = trim (js_join (str '' '') (map t_text (first # rest))),
       l_fontSize = foldl max (t_fontSize first) (map t_fontSize rest),
       l_bold = list_ex t_bold (first # rest),
       l_italic = list_ex t_italic (first # rest) \<rparr>"

definition push_line :: "line list \<Rightarrow> token list \<Rightarrow> jsnum \<Rightarrow> line list" where
  "push_line lns currentLine currentY =
     (case currentLine of [] \<Rightarrow> lns
      | first # rest \<Rightarrow> lns @ [make_line currentY first rest])"

definition same_line :: "jsnum \<Rightarrow> token \<Rightarrow> bool" where
  "same_line currentY item = (currentY = Null \<or> abs_lt (js_minus (t_y item) currentY) 5)"

fun line_loop ::
  "token list \<Rightarrow> line list \<Rightarrow> token list \<Rightarrow> jsnum \<Rightarrow> line list \<times> token list \<times> jsnum"
where
  "line_loop [] lns currentLine currentY = (lns, currentLine, currentY)"
| "line_loop (item # items) lns currentLine currentY =
     (if same_line currentY item
      then line_loop items lns (currentLine @ [item]) (t_y item)
      else line_loop items (push_line lns currentLine currentY) [item] (t_y item))"

definition assemble_lines :: "token list \<Rightarrow> line list" where
  "assemble_lines sortedItems =
     (case line_loop sortedItems [] [] Null of
        (lns, currentLine, currentY) \<Rightarrow> push_line lns currentLine currentY)"

text \<open>The viewport argument of the source is never read and is left out.\<close>

definition processTextItems :: "token list \<Rightarrow> page_content" where
  "processTextItems textItems =
     (if textItems = [] then \<lparr> c_lines = [], c_paragraphs = [] \<rparr>
      else let lns = assemble_lines (js_sort item_compare textItems)
           in \<lparr> c_lines = lns, c_paragraphs = groupLinesIntoParagraphs lns \<rparr>)"

section \<open>PDFProcessor: heading classification\<close>

text \<open>
  What \<^verbatim>\<open>identifyHeadings\<close> returns for a paragraph it takes for a heading.
\<close>

record found_heading =
  h_text :: jsstring
  h_level :: nat
  h_fontSize :: real
  h_bold :: bool
  h_y :: jsnum

text \<open>
  \<^verbatim>\<open>/^(Chapter|Section|\d+\.|\d+\.\d+)/\<close>, tested on the trimmed text: one disjunct for each
  alternative.
\<close>

definition hasHeadingPattern :: "jsstring \<Rightarrow> bool" where
  "hasHeadingPattern text =
     (starts_with (str ''Chapter'') text
      \<or> starts_with (str ''Section'') text
      \<or> (takeWhile is_digit text \<noteq> []
          \<and> (case dropWhile is_digit text of [] \<Rightarrow> False | c # rest \<Rightarrow> c = 46))
      \<or> (takeWhile is_digit text \<noteq> []
          \<and> (case dropWhile is_digit text of [] \<Rightarrow> False
              | c # rest \<Rightarrow> c = 46 \<and> takeWhile is_digit rest \<noteq> [])))"

text \<open>
  The mean of the positive font sizes, \<^verbatim>\<open>fontSizes.reduce(...) / fontSizes.length\<close>; it is
  \<^verbatim>\<open>NaN\<close> (\<open>0 / 0\<close>) when no paragraph has a positive font size.
\<close>

definition avgFontSize :: "para list \<Rightarrow> real option" where
  "avgFontSize paragraphs =
     (let fontSizes = filter (\<lambda>s. s > 0) (map p_fontSize paragraphs)
      in if fontSizes = [] then None
         else Some (foldl (+) 0 fontSizes / real (length fontSizes)))"

text \<open>\<^verbatim>\<open>fontSize > avgFontSize * k\<close>\<close>

definition exceeds :: "real \<Rightarrow> real option \<Rightarrow> real \<Rightarrow> bool" where
  "exceeds fontSize avg k = (case avg of None \<Rightarrow> False | Some a \<Rightarrow> fontSize > a * k)"

definition heading_level :: "real \<Rightarrow> real option \<Rightarrow> nat" where
  "heading_level fontSize avg =
     (if exceeds fontSize avg 1.8 then 1
      else if exceeds fontSize avg 1.5 then 2
      else if exceeds fontSize avg 1.3 then 3
      else if exceeds fontSize avg 1.1 then 4
      else 5)"

definition is_heading :: "real option \<Rightarrow> para \<Rightarrow> bool" where
  "is_heading avg p =
     (let isLargerFont = exceeds (p_fontSize p) avg 1.2;
          isBold = p_bold p;
          isShort = length (p_text p) < 100;
          hasPattern = hasHeadingPattern (trim (p_text p))
      in (isLargerFont \<or> isBold \<or> hasPattern) \<and> isShort)"

definition heading_of :: "real option \<Rightarrow> para \<Rightarrow> found_heading" where
  "heading_of avg p =
     \<lparr> h_text = trim (p_text p), h_level = heading_level (p_fontSize p) avg,
       h_fontSize = p_fontSize p, h_bold = p_bold p, h_y = p_y p \<rparr>"

definition identifyHeadings :: "para list \<Rightarrow> found_heading list" where
  "identifyHeadings paragraphs =
     (if paragraphs = [] then []
      else map (heading_of (avgFontSize paragraphs))
             (filter (is_heading (avgFontSize paragraphs)) paragraphs))"

section \<open>PDFProcessor: list recognition\<close>

datatype list_type = unordered | ordered

record list_item =
  li_text :: jsstring
  li_marker :: jsstring
  li_y :: jsnum

record found_list =
  lb_type :: list_type
  lb_items :: "list_item list"
  lb_y :: jsnum

text \<open>The bullet class \<^verbatim>\<open>[\<bullet>\<cdot>...]\<close> (U+2022, U+00B7, U+25AA, U+25AB, U+2023, U+2043) and \<^verbatim>\<open>[-*+]\<close>.\<close>

definition is_bullet :: "nat \<Rightarrow> bool" where
  "is_bullet c = (c = 8226 \<or> c = 183 \<or> c = 9642 \<or> c = 9643 \<or> c = 8227 \<or> c = 8259)"

definition is_dash :: "nat \<Rightarrow> bool" where
  "is_dash c = (c = 45 \<or> c = 42 \<or> c = 43)"

text \<open>The class \<^verbatim>\<open>[.)]\<close>.\<close>

definition is_dot_paren :: "nat \<Rightarrow> bool" where
  "is_dot_paren c = (c = 46 \<or> c = 41)"

text \<open>\<^verbatim>\<open>/^[...]\s/.test(text) || /^[-*+]\s/.test(text)\<close>\<close>

definition isBulletPoint :: "jsstring \<Rightarrow> bool" where
  "isBulletPoint text =
     (case text of c # d # rest \<Rightarrow> (is_bullet c \<and> is_space d) \<or> (is_dash c \<and> is_space d)
      | _ \<Rightarrow> False)"

text \<open>\<^verbatim>\<open>/^\d+[.)]\s/.test(text)\<close>\<close>

definition isNumberedItem :: "jsstring \<Rightarrow> bool" where
  "isNumberedItem text =
     (takeWhile is_digit text \<noteq> []
      \<and> (case dropWhile is_digit text of c # d # rest \<Rightarrow> is_dot_paren c \<and> is_space d
          | _ \<Rightarrow> False))"

text \<open>\<^verbatim>\<open>/^[a-zA-Z][.)]\s/.test(text)\<close>\<close>

definition isLetterItem :: "jsstring \<Rightarrow> bool" where
  "isLetterItem text =
     (case text of c # d # e # rest \<Rightarrow> is_letter c \<and> is_dot_paren d \<and> is_space e
      | _ \<Rightarrow> False)"

text \<open>
  Group 1 of \<^verbatim>\<open>/^([...\-*+]|\d+[.)]|[a-zA-Z][.)])/\<close>: a bullet or dash character, digits and
  a dot or parenthesis, or one letter and a dot or parenthesis.  The three alternatives
  start with different characters, so at most one of them can match.
\<close>

definition list_marker :: "jsstring \<Rightarrow> jsstring option" where
  "list_marker text =
     (case text of [] \<Rightarrow> None
      | c # cs \<Rightarrow>
          if is_bullet c \<or> is_dash c then Some [c]
          else if is_digit c then
            (case dropWhile is_digit text of [] \<Rightarrow> None
             | d # rest \<Rightarrow> if is_dot_paren d then Some (takeWhile is_digit text @ [d]) else None)
          else if is_letter c then
            (case cs of [] \<Rightarrow> None
             | d # rest \<Rightarrow> if is_dot_paren d then Some [c, d] else None)
          else None)"

text \<open>\<^verbatim>\<open>text.match(/^(...)/)?.[1] || ''\<close>\<close>

definition item_marker :: "jsstring \<Rightarrow> jsstring" where
  "item_marker text = (case list_marker text of None \<Rightarrow> [] | Some m \<Rightarrow> m)"

text \<open>\<^verbatim>\<open>text.replace(/^(...)\s/, '').trim()\<close>: the marker goes only when whitespace follows it.\<close>

definition item_text :: "jsstring \<Rightarrow> jsstring" where
  "item_text text =
     trim (case list_marker text of None \<Rightarrow> text
           | Some m \<Rightarrow>
               (case drop (length m) text of [] \<Rightarrow> text
                | d # rest \<Rightarrow> if is_space d then rest else text))"

definition add_item :: "found_list \<Rightarrow> jsstring \<Rightarrow> jsnum \<Rightarrow> found_list" where
  "add_item l text y =
     l\<lparr> lb_items := lb_items l
          @ [\<lparr> li_text = item_text text, li_marker = item_marker text, li_y = y \<rparr>] \<rparr>"

text \<open>
  The loop over the paragraphs with its variables \<open>lsts\<close> (the array \<open>lists\<close> of the
  source) and \<open>currentList\<close> (\<open>None\<close> is \<^verbatim>\<open>null\<close>), followed by the push of the last list.
\<close>

fun list_loop :: "para list \<Rightarrow> found_list list \<Rightarrow> found_list option \<Rightarrow> found_list list" where
  "list_loop [] lsts currentList =
     (case currentList of None \<Rightarrow> lsts | Some l \<Rightarrow> lsts @ [l])"
| "list_loop (p # ps) lsts currentList =
     (let text = trim (p_text p) in
      if isBulletPoint text \<or> isNumberedItem text \<or> isLetterItem text
      then
        (let listType = (if isBulletPoint text then unordered else ordered);
             fresh = \<lparr> lb_type = listType, lb_items = [], lb_y = p_y p \<rparr>
         in case currentList of
              None \<Rightarrow> list_loop ps lsts (Some (add_item fresh text (p_y p)))
            | Some l \<Rightarrow>
                if lb_type l \<noteq> listType
                then list_loop ps (lsts @ [l]) (Some (add_item fresh text (p_y p)))
                else list_loop ps lsts (Some (add_item l text (p_y p))))
      else
        (case currentList of
           None \<Rightarrow> list_loop ps lsts None
         | Some l \<Rightarrow> list_loop ps (lsts @ [l]) None))"

definition identifyLists :: "para list \<Rightarrow> found_list list" where
  "identifyLists paragraphs = list_loop paragraphs [] None"

section \<open>PDFProcessor: table detection\<close>

text \<open>
  \<^verbatim>\<open>text.split(/\s{3,}/)\<close>: the separators are the maximal runs of three or more whitespace
  characters; \<open>seg\<close> is the segment read so far.
\<close>

function split_spaces3 :: "jsstring \<Rightarrow> jsstring \<Rightarrow> jsstring list" where
  "split_spaces3 seg [] = [seg]"
| "split_spaces3 seg (c # cs) =
     (if 3 \<le> length (takeWhile is_space (c # cs))
      then seg # split_spaces3 [] (dropWhile is_space (c # cs))
      else split_spaces3 (seg @ [c]) cs)"
  by pat_completeness auto
termination
proof (relation "measure (\<lambda>(seg, s). length s)")
  fix seg :: jsstring and c cs
  assume "3 \<le> length (takeWhile is_space (c # cs))"
  then have "is_space c" by (auto split: if_splits)
  then have "length (dropWhile is_space (c # cs)) \<le> length cs"
    by (simp add: length_dropWhile_le)
  then show "(([], dropWhile is_space (c # cs)), (seg, c # cs)) \<in> measure (\<lambda>(seg, s). length s)"
    by simp
qed simp_all

record table_row =
  r_text :: jsstring
  r_segments :: "jsstring list"
  r_y :: jsnum

record table_block =
  tb_rows :: "table_row list"
  tb_columnCount :: nat
  tb_y :: jsnum

record candidate =
  cand_line :: line
  cand_segments :: "jsstring list"
  cand_segmentCount :: nat

definition candidate_of :: "line \<Rightarrow> candidate" where
  "candidate_of lin =
     \<lparr> cand_line = lin,
       cand_segments = split_spaces3 [] (l_text lin),
       cand_segmentCount = length (split_spaces3 [] (l_text lin)) \<rparr>"

definition potentialTableLines :: "line list \<Rightarrow> candidate list" where
  "potentialTableLines lns =
     filter (\<lambda>c. 3 \<le> cand_segmentCount c) (map candidate_of lns)"

definition row_of :: "candidate \<Rightarrow> table_row" where
  "row_of c =
     \<lparr> r_text = l_text (cand_line c), r_segments = cand_segments c, r_y = l_y (cand_line c) \<rparr>"

text \<open>The guarded push \<^verbatim>\<open>if (currentTable.length >= 2) tables.push({...})\<close>.\<close>

definition push_table :: "table_block list \<Rightarrow> candidate list \<Rightarrow> table_block list" where
  "push_table tables currentTable =
     (case currentTable of
        first # second # rest \<Rightarrow>
          tables @ [\<lparr> tb_rows = map row_of (first # second # rest),
                      tb_columnCount = cand_segmentCount first,
                      tb_y = l_y (cand_line first) \<rparr>]
      | _ \<Rightarrow> tables)"

definition same_table :: "candidate \<Rightarrow> candidate list \<Rightarrow> candidate \<Rightarrow> bool" where
  "same_table first rest current =
     (abs_lt (js_minus (l_y (cand_line current)) (l_y (cand_line (last (first # rest))))) 30
      \<and> \<bar>int (cand_segmentCount current) - int (cand_segmentCount first)\<bar> \<le> 1)"

fun table_loop ::
  "candidate list \<Rightarrow> candidate list \<Rightarrow> table_block list \<Rightarrow> table_block list \<times> candidate list"
where
  "table_loop [] currentTable tables = (tables, currentTable)"
| "table_loop (current # later) currentTable tables =
     (case currentTable of
        [] \<Rightarrow> table_loop later [current] tables
      | first # rest \<Rightarrow>
          if same_table first rest current
          then table_loop later (currentTable @ [current]) tables
          else table_loop later [current] (push_table tables currentTable))"

definition identifyTables :: "line list \<Rightarrow> table_block list" where
  "identifyTables lns =
     (if 2 \<le> length (potentialTableLines lns)
      then case table_loop (potentialTableLines lns) [] [] of
             (tables, currentTable) \<Rightarrow> push_table tables currentTable
      else [])"




section \<open>PDFProcessor: analyzeStructure\<close>

text \<open>
  \<^verbatim>\<open>analyzeStructure\<close> spreads every heading, list and table it finds on a page into a
  copy that also carries \<open>pageNumber\<close>.
\<close>

record heading = found_heading +
  h_pageNumber :: nat

definition on_page :: "nat \<Rightarrow> found_heading \<Rightarrow> heading" where
  "on_page n h = found_heading.extend h (heading.fields n)"

record list_block = found_list +
  lb_pageNumber :: nat

definition list_on_page :: "nat \<Rightarrow> found_list \<Rightarrow> list_block" where
  "list_on_page n l = found_list.extend l (list_block.fields n)"

record table = table_block +
  tb_pageNumber :: nat

definition table_on_page :: "nat \<Rightarrow> table_block \<Rightarrow> table" where
  "table_on_page n t = table_block.extend t (table.fields n)"

text \<open>
  A page as \<^verbatim>\<open>extractAllPages\<close> pushes it; \<open>pg_error\<close> tells whether the page carries the
  \<open>error\<close> property of a page whose extraction threw.
\<close>

record page =
  pg_pageNumber :: nat
  pg_content :: page_content
  pg_rawText :: jsstring
  pg_error :: bool

record "structure" =
  st_headings :: "heading list"
  st_tables :: "table list"
  st_lists :: "list_block list"

record extracted =
  ex_pages :: "page list"
  ex_structure :: "structure"

text \<open>
  The pages that are analysed: \<^verbatim>\<open>if (!page.content || page.error) continue\<close>.  Code blocks,
  links and footnotes are collected by the source as well; nothing modelled here reads them.
\<close>

definition analyzeStructure :: "page list \<Rightarrow> structure" where
  "analyzeStructure pages =
     (let analysed = filter (\<lambda>pg. \<not> pg_error pg) pages in
      \<lparr> st_headings =
          concat (map (\<lambda>pg. map (on_page (pg_pageNumber pg))
                              (identifyHeadings (c_paragraphs (pg_content pg)))) analysed),
        st_tables =
          concat (map (\<lambda>pg. map (table_on_page (pg_pageNumber pg))
                              (identifyTables (c_lines (pg_content pg)))) analysed),
        st_lists =
          concat (map (\<lambda>pg. map (list_on_page (pg_pageNumber pg))
                              (identifyLists (c_paragraphs (pg_content pg)))) analysed) \<rparr>)"

text \<open>
  What \<^verbatim>\<open>processPDF\<close> returns and \<^verbatim>\<open>StructureAnalyzer\<close> reads: the pages and the structure
  found on them (the metadata and the images are not read by the functions modelled).
\<close>

definition extract_document :: "page list \<Rightarrow> extracted" where
  "extract_document pages = \<lparr> ex_pages = pages, ex_structure = analyzeStructure pages \<rparr>"

section \<open>StructureAnalyzer: generateOutline\<close>

text \<open>The comparator shared by \<^verbatim>\<open>generateOutline\<close> and \<^verbatim>\<open>identifySections\<close>.\<close>

definition heading_compare :: "heading \<Rightarrow> heading \<Rightarrow> real" where
  "heading_compare a b =
     (if h_pageNumber a \<noteq> h_pageNumber b then real (h_pageNumber a) - real (h_pageNumber b)
      else compare_result (js_minus (h_y b) (h_y a)))"

text \<open>
  The source builds the outline from objects that are referenced both from the stack and
  from their parent's \<open>children\<close> array, and appends to \<open>children\<close> in place.  The objects
  live in a store, the list \<open>os_items\<close> in creation order; the stack, the outline and the
  \<open>children\<close> arrays hold indices into it.  The top of the stack is its last element.
\<close>

record outline_item =
  o_text :: jsstring
  o_level :: nat
  o_pageNumber :: nat
  o_children :: "nat list"

record outline_state =
  os_items :: "outline_item list"
  os_outline :: "nat list"
  os_stack :: "nat list"

text \<open>\<^verbatim>\<open>while (stack.length > 0 && stack[stack.length - 1].level >= level) stack.pop()\<close>\<close>

function pop_stack :: "outline_item list \<Rightarrow> nat \<Rightarrow> nat list \<Rightarrow> nat list" where
  "pop_stack items level stack =
     (if stack \<noteq> [] \<and> o_level (items ! last stack) \<ge> level
      then pop_stack items level (butlast stack)
      else stack)"
  by pat_completeness auto
termination
  by (relation "measure (\<lambda>(items, level, stack). length stack)") auto

declare pop_stack.simps [simp del]

definition push_child :: "outline_item list \<Rightarrow> nat \<Rightarrow> nat \<Rightarrow> outline_item list" where
  "push_child items parent child =
     items[parent := (items ! parent)\<lparr> o_children := o_children (items ! parent) @ [child] \<rparr>]"

definition outline_step :: "outline_state \<Rightarrow> heading \<Rightarrow> outline_state" where
  "outline_step s h =
     (let item = length (os_items s);
          items = os_items s @ [\<lparr> o_text = h_text h, o_level = h_level h,
                                   o_pageNumber = h_pageNumber h, o_children = [] \<rparr>];
          stack = pop_stack items (h_level h) (os_stack s)
      in if stack = []
         then \<lparr> os_items = items, os_outline = os_outline s @ [item], os_stack = stack @ [item] \<rparr>
         else \<lparr> os_items = push_child items (last stack) item, os_outline = os_outline s,
                os_stack = stack @ [item] \<rparr>)"

definition generateOutline :: "heading list \<Rightarrow> outline_state" where
  "generateOutline headings =
     foldl outline_step \<lparr> os_items = [], os_outline = [], os_stack = [] \<rparr>
       (js_sort heading_compare headings)"

text \<open>The nodes of the returned forest: the roots and everything below them.\<close>

inductive_set outline_nodes :: "outline_item list \<Rightarrow> nat list \<Rightarrow> nat set"
  for items :: "outline_item list" and roots :: "nat list"
where
  root: "r \<in> set roots \<Longrightarrow> r \<in> outline_nodes items roots"
| child: "n \<in> outline_nodes items roots \<Longrightarrow> c \<in> set (o_children (items ! n))
          \<Longrightarrow> c \<in> outline_nodes items roots"

section \<open>StructureAnalyzer: sections\<close>

record doc_section =
  s_title :: jsstring
  s_level :: nat
  s_pageNumber :: nat
  s_startY :: jsnum
  s_endY :: jsnum
  s_content :: jsstring
  s_wordCount :: nat
  s_hasSubsections :: bool

text \<open>\<^verbatim>\<open>paragraph.y === heading.y && paragraph.text === heading.text\<close>\<close>

definition is_heading_paragraph :: "heading \<Rightarrow> para \<Rightarrow> bool" where
  "is_heading_paragraph h p = (p_y p = h_y h \<and> p_text p = h_text h)"

text \<open>
  The inner loop of \<^verbatim>\<open>extractSectionContent\<close> over the paragraphs of one page; the state is
  \<open>(content, collecting)\<close>, and \<^verbatim>\<open>break\<close> returns it as it stands.
\<close>

fun scan_paragraphs ::
  "para list \<Rightarrow> heading \<Rightarrow> heading option \<Rightarrow> jsstring \<times> bool \<Rightarrow> jsstring \<times> bool"
where
  "scan_paragraphs [] startHeading endHeading st = st"
| "scan_paragraphs (p # ps) startHeading endHeading (content, collecting) =
     (if is_heading_paragraph startHeading p
      then scan_paragraphs ps startHeading endHeading (content, True)
      else if (case endHeading of None \<Rightarrow> False | Some e \<Rightarrow> is_heading_paragraph e p)
      then (content, False)
      else scan_paragraphs ps startHeading endHeading
             (if collecting then content @ p_text p @ [10, 10] else content, collecting))"

text \<open>The outer loop over the pages.\<close>

fun scan_pages ::
  "page list \<Rightarrow> heading \<Rightarrow> heading option \<Rightarrow> jsstring \<times> bool \<Rightarrow> jsstring"
where
  "scan_pages [] startHeading endHeading (content, collecting) = content"
| "scan_pages (pg # pgs) startHeading endHeading (content, collecting) =
     (if pg_pageNumber pg < h_pageNumber startHeading
      then scan_pages pgs startHeading endHeading (content, collecting)
      else if (case endHeading of None \<Rightarrow> False
               | Some e \<Rightarrow> pg_pageNumber pg > h_pageNumber e)
      then content
      else case scan_paragraphs (c_paragraphs (pg_content pg)) startHeading endHeading
                  (content, collecting) of
             (content', collecting') \<Rightarrow>
               if \<not> collecting' \<and> endHeading \<noteq> None then content'
               else scan_pages pgs startHeading endHeading (content', collecting'))"

definition extractSectionContent :: "page list \<Rightarrow> heading \<Rightarrow> heading option \<Rightarrow> jsstring" where
  "extractSectionContent pages startHeading endHeading =
     trim (scan_pages pages startHeading endHeading ([], False))"

text \<open>
  \<^verbatim>\<open>content.split(/\s+/).length\<close>: one more than the number of maximal whitespace runs.
\<close>

function count_space_runs :: "jsstring \<Rightarrow> nat" where
  "count_space_runs [] = 0"
| "count_space_runs (c # cs) =
     (if is_space c then Suc (count_space_runs (dropWhile is_space cs))
      else count_space_runs cs)"
  by pat_completeness auto
termination
  by (relation "measure length") (auto simp: length_dropWhile_le less_Suc_eq_le)

definition hasSubsections :: "heading list \<Rightarrow> heading \<Rightarrow> heading option \<Rightarrow> bool" where
  "hasSubsections headings h nextHeading =
     list_ex (\<lambda>k. h_level k > h_level h \<and> h_pageNumber k \<ge> h_pageNumber h
                \<and> (case nextHeading of None \<Rightarrow> True
                    | Some n \<Rightarrow> h_pageNumber k < h_pageNumber n
                        \<or> (h_pageNumber k = h_pageNumber n \<and> js_gt (h_y k) (h_y n))))
       headings"

definition make_section :: "page list \<Rightarrow> heading list \<Rightarrow> heading \<Rightarrow> heading option \<Rightarrow> doc_section" where
  "make_section pages headings h nextHeading =
     \<lparr> s_title = h_text h, s_level = h_level h, s_pageNumber = h_pageNumber h,
       s_startY = h_y h,
       s_endY = (case nextHeading of None \<Rightarrow> Num 0 | Some n \<Rightarrow> h_y n),
       s_content = extractSectionContent pages h nextHeading,
       s_wordCount = Suc (count_space_runs (extractSectionContent pages h nextHeading)),
       s_hasSubsections = hasSubsections headings h nextHeading \<rparr>"

text \<open>
  The loop \<^verbatim>\<open>for (i = 0; i < headings.length; i++)\<close>: \<open>remaining\<close> is \<open>headings\<close> from index \<open>i\<close>
  on, so \<open>nextHeading = headings[i + 1]\<close> is the head of its tail.
\<close>

fun section_loop :: "page list \<Rightarrow> heading list \<Rightarrow> heading list \<Rightarrow> doc_section list" where
  "section_loop pages headings [] = []"
| "section_loop pages headings (h # remaining) =
     make_section pages headings h (case remaining of [] \<Rightarrow> None | n # later \<Rightarrow> Some n)
     # section_loop pages headings remaining"






section \<open>StructureAnalyzer: cleanHeadingText and listPatterns\<close>

text \<open>The greedy repetition \<^verbatim>\<open>(\.\d+)*\<close> at the start of a string.\<close>

function drop_dotted :: "jsstring \<Rightarrow> jsstring" where
  "drop_dotted [] = []"
| "drop_dotted (c # cs) =
     (if c = 46 \<and> takeWhile is_digit cs \<noteq> [] then drop_dotted (dropWhile is_digit cs)
      else c # cs)"
  by pat_completeness auto
termination
  by (relation "measure length") (auto simp: length_dropWhile_le less_Suc_eq_le)

text \<open>\<^verbatim>\<open>.replace(/^\d+(\.\d+)*\s*/, '')\<close>\<close>

definition strip_numbering :: "jsstring \<Rightarrow> jsstring" where
  "strip_numbering s =
     (if takeWhile is_digit s = [] then s
      else dropWhile is_space (drop_dotted (dropWhile is_digit s)))"

text \<open>\<^verbatim>\<open>.replace(/^(Chapter|Section|Part|Appendix)\s+\d+\s*/i, '')\<close>\<close>

definition strip_prefix :: "jsstring \<Rightarrow> jsstring" where
  "strip_prefix s =
     (case find (\<lambda>k. starts_with_ci k s)
             [str ''Chapter'', str ''Section'', str ''Part'', str ''Appendix''] of
        None \<Rightarrow> s
      | Some k \<Rightarrow>
          (let after_word = drop (length k) s;
               after_space = dropWhile is_space after_word;
               after_number = dropWhile is_digit after_space
           in if takeWhile is_space after_word \<noteq> [] \<and> takeWhile is_digit after_space \<noteq> []
              then dropWhile is_space after_number
              else s))"

text \<open>\<^verbatim>\<open>.replace(/\s+/g, ' ')\<close>\<close>

function collapse_spaces :: "jsstring \<Rightarrow> jsstring" where
  "collapse_spaces [] = []"
| "collapse_spaces (c # cs) =
     (if is_space c then 32 # collapse_spaces (dropWhile is_space cs)
      else c # collapse_spaces cs)"
  by pat_completeness auto
termination
  by (relation "measure length") (auto simp: length_dropWhile_le less_Suc_eq_le)

definition cleanHeadingText :: "jsstring \<Rightarrow> jsstring" where
  "cleanHeadingText text = collapse_spaces (trim (strip_prefix (strip_numbering text)))"

text \<open>
  \<^verbatim>\<open>StructureAnalyzer.listPatterns.roman\<close>, \<^verbatim>\<open>/^[\s]*[ivxlcdm]+[.)]\s/i\<close>.  The table
  \<open>listPatterns\<close> is assigned in the constructor and read nowhere.
\<close>

definition is_roman_letter :: "nat \<Rightarrow> bool" where
  "is_roman_letter c =
     (c \<in> set (str ''ivxlcdm'') \<or> c \<in> set (str ''IVXLCDM''))"

definition listPatterns_roman :: "jsstring \<Rightarrow> bool" where
  "listPatterns_roman text =
     (let body = dropWhile is_space text in
      takeWhile is_roman_letter body \<noteq> []
      \<and> (case dropWhile is_roman_letter body of c # d # rest \<Rightarrow> is_dot_paren c \<and> is_space d
          | _ \<Rightarrow> False))"

section \<open>StructureAnalyzer: cross-references\<close>

text \<open>
  \<^verbatim>\<open>text.slice(start, end).trim()\<close> with \<^verbatim>\<open>start = Math.max(0, index - contextLength)\<close> and
  \<^verbatim>\<open>end = Math.min(text.length, index + contextLength)\<close>; subtraction on \<^typ>\<open>nat\<close> stops at 0.
\<close>

definition js_slice :: "jsstring \<Rightarrow> nat \<Rightarrow> nat \<Rightarrow> jsstring" where
  "js_slice text start end = take (end - start) (drop start text)"

definition extractContext :: "jsstring \<Rightarrow> nat \<Rightarrow> nat \<Rightarrow> jsstring" where
  "extractContext text index contextLength =
     (let start = index - contextLength;
          end = min (length text) (index + contextLength)
      in trim (js_slice text start end))"

text \<open>
  The six patterns have one shape, \<^verbatim>\<open>/(?:word|abbr\.)\s*(group)/gi\<close>, where the group is
  \<^verbatim>\<open>\d+\<close>, \<^verbatim>\<open>\d+(?:\.\d+)*\<close> or \<^verbatim>\<open>[A-Z]\<close> (any ASCII letter under the \<open>i\<close> flag).
\<close>

datatype ref_group = Digits | DottedDigits | Letter

record ref_pattern =
  rp_type :: jsstring
  rp_words :: "jsstring list"
  rp_group :: ref_group

definition patterns :: "ref_pattern list" where
  "patterns =
     [\<lparr> rp_type = str ''page'', rp_words = [str ''page'', str ''p.''], rp_group = Digits \<rparr>,
      \<lparr> rp_type = str ''section'', rp_words = [str ''section'', str ''sec.''],
        rp_group = DottedDigits \<rparr>,
      \<lparr> rp_type = str ''figure'', rp_words = [str ''figure'', str ''fig.''], rp_group = Digits \<rparr>,
      \<lparr> rp_type = str ''table'', rp_words = [str ''table'', str ''tbl.''], rp_group = Digits \<rparr>,
      \<lparr> rp_type = str ''chapter'', rp_words = [str ''chapter'', str ''ch.''], rp_group = Digits \<rparr>,
      \<lparr> rp_type = str ''appendix'', rp_words = [str ''appendix'', str ''app.''],
        rp_group = Letter \<rparr>]"

text \<open>The length of the group's greedy match at the start of \<open>s\<close>.\<close>

definition match_group :: "ref_group \<Rightarrow> jsstring \<Rightarrow> nat option" where
  "match_group g s =
     (case g of
        Digits \<Rightarrow>
          (if takeWhile is_digit s = [] then None else Some (length (takeWhile is_digit s)))
      | DottedDigits \<Rightarrow>
          (if takeWhile is_digit s = [] then None
           else Some (length s - length (drop_dotted (dropWhile is_digit s))))
      | Letter \<Rightarrow>
          (case s of [] \<Rightarrow> None | c # cs \<Rightarrow> if is_letter c then Some 1 else None))"

text \<open>One alternative at the start of \<open>s\<close>: the length of the whole match, and group 1.\<close>

definition match_word :: "ref_group \<Rightarrow> jsstring \<Rightarrow> jsstring \<Rightarrow> (nat \<times> jsstring) option" where
  "match_word g w s =
     (if starts_with_ci w s
      then (let after_word = drop (length w) s;
                spaces = length (takeWhile is_space after_word);
                rest = dropWhile is_space after_word
            in case match_group g rest of
                 None \<Rightarrow> None
               | Some n \<Rightarrow> Some (length w + spaces + n, take n rest))
      else None)"

text \<open>The alternatives are tried in order.\<close>

definition match_here :: "ref_pattern \<Rightarrow> jsstring \<Rightarrow> (nat \<times> jsstring) option" where
  "match_here pat s =
     (case List.map_filter (\<lambda>w. match_word (rp_group pat) w s) (rp_words pat) of
        [] \<Rightarrow> None
      | m # ms \<Rightarrow> Some m)"

text \<open>
  The loop \<^verbatim>\<open>while ((match = pattern.exec(text)) !== null)\<close> of a global pattern: every call
  searches from \<open>lastIndex\<close>, the end of the previous match.  \<open>scan_matches\<close> walks the text
  once; \<open>i\<close> is the index of the first code unit of the remaining text and \<open>skip\<close> the number
  of code units still before \<open>lastIndex\<close>.  A match is \<open>(index, length, group 1)\<close>.
\<close>

fun scan_matches :: "ref_pattern \<Rightarrow> jsstring \<Rightarrow> nat \<Rightarrow> nat \<Rightarrow> (nat \<times> nat \<times> jsstring) list" where
  "scan_matches pat [] i skip = []"
| "scan_matches pat (c # cs) i skip =
     (if 0 < skip then scan_matches pat cs (Suc i) (skip - 1)
      else case match_here pat (c # cs) of
             None \<Rightarrow> scan_matches pat cs (Suc i) 0
           | Some (n, grp) \<Rightarrow> (i, n, grp) # scan_matches pat cs (Suc i) (n - 1))"

record cross_reference =
  cr_type :: jsstring
  cr_reference :: jsstring
  cr_fullMatch :: jsstring
  cr_pageNumber :: nat
  cr_context :: jsstring

definition make_reference :: "page \<Rightarrow> ref_pattern \<Rightarrow> nat \<times> nat \<times> jsstring \<Rightarrow> cross_reference" where
  "make_reference pg pat m =
     (case m of (index, n, grp) \<Rightarrow>
        \<lparr> cr_type = rp_type pat, cr_reference = grp,
          cr_fullMatch = js_slice (pg_rawText pg) index (index + n),
          cr_pageNumber = pg_pageNumber pg,
          cr_context = extractContext (pg_rawText pg) index 50 \<rparr>)"

definition page_references :: "page \<Rightarrow> cross_reference list" where
  "page_references pg =
     concat (map (\<lambda>pat. map (make_reference pg pat) (scan_matches pat (pg_rawText pg) 0 0))
               patterns)"

definition findCrossReferences :: "extracted \<Rightarrow> cross_reference list" where
  "findCrossReferences content = concat (map page_references (ex_pages content))"

section \<open>StructureAnalyzer: reading order\<close>

subsection \<open>Arithmetic on doubles\<close>

text \<open>
  A JavaScript number is an IEEE 754 binary64 value: \<^verbatim>\<open>NaN\<close>, an infinity, or a finite number
  \<open>m * 2 ^ e\<close> with \<open>\<bar>m\<bar> < 2 ^ 53\<close> and \<open>- 1074 \<le> e \<le> 971\<close> (the sign of a zero, which no
  comparison sees, is left out).  An operation returns its exact result rounded to the
  nearest such number, a tie going to the even \<open>m\<close>; a result that rounds to \<open>2 ^ 1024\<close> or
  beyond in magnitude is an infinity.
\<close>

datatype double = NaN | NegInf | PosInf | Finite real

text \<open>The exponent \<open>b\<close> with \<open>2 ^ b \<le> \<bar>x\<bar> < 2 ^ (b + 1)\<close>, for \<open>x \<noteq> 0\<close>.\<close>

definition binade :: "real \<Rightarrow> int" where
  "binade x = (if 1 \<le> \<bar>x\<bar> then bitlen \<lfloor>\<bar>x\<bar>\<rfloor> - 1 else - bitlen (\<lceil>1 / \<bar>x\<bar>\<rceil> - 1))"

text \<open>
  The exponent of the unit in the last place of the doubles around \<open>x\<close>: 52 below the
  binade, and \<open>- 1074\<close> in the subnormal range.
\<close>

definition ulp_exponent :: "real \<Rightarrow> int" where
  "ulp_exponent x = max (binade x - 52) (- 1074)"

text \<open>Rounding to the nearest integer, a tie going to the even one.\<close>

definition round_even :: "real \<Rightarrow> int" where
  "round_even q =
     (if q - of_int \<lfloor>q\<rfloor> < 1 / 2 then \<lfloor>q\<rfloor>
      else if 1 / 2 < q - of_int \<lfloor>q\<rfloor> then \<lfloor>q\<rfloor> + 1
      else if even \<lfloor>q\<rfloor> then \<lfloor>q\<rfloor> else \<lfloor>q\<rfloor> + 1)"

definition round_double :: "real \<Rightarrow> real" where
  "round_double x = of_int (round_even (x / 2 powi ulp_exponent x)) * 2 powi ulp_exponent x"

definition fl :: "real \<Rightarrow> double" where
  "fl x =
     (if 2 ^ 1024 \<le> round_double x then PosInf
      else if round_double x \<le> - (2 ^ 1024) then NegInf
      else Finite (round_double x))"

text \<open>The least positive double; every finite double is an integer multiple of it.\<close>

definition least_double :: real where
  "least_double = 2 powi (- 1074)"

fun double_neg :: "double \<Rightarrow> double" where
  "double_neg NaN = NaN"
| "double_neg NegInf = PosInf"
| "double_neg PosInf = NegInf"
| "double_neg (Finite a) = Finite (- a)"

fun double_add :: "double \<Rightarrow> double \<Rightarrow> double" where
  "double_add (Finite a) (Finite b) = fl (a + b)"
| "double_add NaN b = NaN"
| "double_add a NaN = NaN"
| "double_add PosInf NegInf = NaN"
| "double_add NegInf PosInf = NaN"
| "double_add PosInf b = PosInf"
| "double_add a PosInf = PosInf"
| "double_add NegInf b = NegInf"
| "double_add a NegInf = NegInf"

definition double_sub :: "double \<Rightarrow> double \<Rightarrow> double" where
  "double_sub a b = double_add a (double_neg b)"

text \<open>\<^verbatim>\<open>ToNumber\<close> as a double.\<close>

definition to_double :: "jsnum \<Rightarrow> double" where
  "to_double y = (case ToNumber y of None \<Rightarrow> NaN | Some v \<Rightarrow> Finite v)"

text \<open>\<^verbatim>\<open>a < b\<close> and \<^verbatim>\<open>a <= b\<close> on doubles: every comparison with \<^verbatim>\<open>NaN\<close> is false.\<close>

fun order_lt :: "double \<Rightarrow> double \<Rightarrow> bool" where
  "order_lt (Finite a) (Finite b) = (a < b)"
| "order_lt NaN b = False"
| "order_lt a NaN = False"
| "order_lt a NegInf = False"
| "order_lt PosInf b = False"
| "order_lt NegInf b = True"
| "order_lt a PosInf = True"

fun order_le :: "double \<Rightarrow> double \<Rightarrow> bool" where
  "order_le (Finite a) (Finite b) = (a \<le> b)"
| "order_le NaN b = False"
| "order_le a NaN = False"
| "order_le NegInf b = True"
| "order_le a PosInf = True"
| "order_le a NegInf = False"
| "order_le PosInf b = False"

text \<open>
  What \<^verbatim>\<open>Array.prototype.sort\<close> makes of a comparator's value: it reads \<^verbatim>\<open>NaN\<close> as \<open>+0\<close> and
  otherwise uses only whether the value is negative, zero or positive.
\<close>

fun comparator_value :: "double \<Rightarrow> real" where
  "comparator_value NaN = 0"
| "comparator_value NegInf = - 1"
| "comparator_value PosInf = 1"
| "comparator_value (Finite v) = v"

subsection \<open>determineReadingOrder\<close>

datatype element_content =
  HeadingContent heading
| ParagraphContent para
| ListContent list_block
| TableContent table

record element =
  e_type :: jsstring
  e_content :: element_content
  e_pageNumber :: nat
  e_y :: jsnum
  e_order :: double

text \<open>
  \<^verbatim>\<open>pageNumber * 10000 + (10000 - y)\<close>: a product, a difference and a sum, each rounded.  The
  result is \<^verbatim>\<open>NaN\<close> when \<open>y\<close> is \<^verbatim>\<open>undefined\<close>.  The operands range over all reals, of which
  the finite doubles are those that rounding leaves unchanged.
\<close>

definition calculateReadingOrder :: "nat \<Rightarrow> jsnum \<Rightarrow> double" where
  "calculateReadingOrder pageNumber y =
     double_add (fl (real pageNumber * 10000)) (double_sub (Finite 10000) (to_double y))"

definition heading_element :: "page \<Rightarrow> heading \<Rightarrow> element" where
  "heading_element pg h =
     \<lparr> e_type = str ''heading'', e_content = HeadingContent h, e_pageNumber = pg_pageNumber pg,
       e_y = h_y h, e_order = calculateReadingOrder (pg_pageNumber pg) (h_y h) \<rparr>"

definition paragraph_element :: "page \<Rightarrow> para \<Rightarrow> element" where
  "paragraph_element pg p =
     \<lparr> e_type = str ''paragraph'', e_content = ParagraphContent p, e_pageNumber = pg_pageNumber pg,
       e_y = p_y p, e_order = calculateReadingOrder (pg_pageNumber pg) (p_y p) \<rparr>"

definition list_element :: "page \<Rightarrow> list_block \<Rightarrow> element" where
  "list_element pg l =
     \<lparr> e_type = str ''list'', e_content = ListContent l, e_pageNumber = pg_pageNumber pg,
       e_y = lb_y l, e_order = calculateReadingOrder (pg_pageNumber pg) (lb_y l) \<rparr>"

definition table_element :: "page \<Rightarrow> table \<Rightarrow> element" where
  "table_element pg t =
     \<lparr> e_type = str ''table'', e_content = TableContent t, e_pageNumber = pg_pageNumber pg,
       e_y = tb_y t, e_order = calculateReadingOrder (pg_pageNumber pg) (tb_y t) \<rparr>"

text \<open>The elements one iteration of the loop over the pages pushes, in the order pushed.\<close>

definition page_elements :: "structure \<Rightarrow> page \<Rightarrow> element list" where
  "page_elements st pg =
     map (heading_element pg) (filter (\<lambda>h. h_pageNumber h = pg_pageNumber pg) (st_headings st))
     @ map (paragraph_element pg) (c_paragraphs (pg_content pg))
     @ map (list_element pg) (filter (\<lambda>l. lb_pageNumber l = pg_pageNumber pg) (st_lists st))
     @ map (table_element pg) (filter (\<lambda>t. tb_pageNumber t = pg_pageNumber pg) (st_tables st))"

text \<open>\<^verbatim>\<open>(a, b) => a.order - b.order\<close>\<close>

definition order_compare :: "element \<Rightarrow> element \<Rightarrow> real" where
  "order_compare a b = comparator_value (double_sub (e_order a) (e_order b))"

definition determineReadingOrder :: "extracted \<Rightarrow> element list" where
  "determineReadingOrder content =
     js_sort order_compare (concat (map (page_elements (ex_structure content)) (ex_pages content)))"

section \<open>Invariants of the loops\<close>

text \<open>
  A token joins the current line when it lies within 5 units of \<open>currentY\<close>, and
  \<open>currentY\<close> is then moved to that token: each member is compared with its predecessor.
\<close>

definition chained :: "token list \<Rightarrow> bool" where
  "chained ts = successively (\<lambda>a b. abs_lt (js_minus (t_y b) (t_y a)) 5) ts"

definition line_ok :: "line \<Rightarrow> bool" where
  "line_ok L = (l_items L \<noteq> [] \<and> l_y L = t_y (last (l_items L)) \<and> chained (l_items L))"

definition line_state_ok :: "line list \<Rightarrow> token list \<Rightarrow> jsnum \<Rightarrow> bool" where
  "line_state_ok lns cur curY =
     ((\<forall>L \<in> set lns. line_ok L) \<and> chained cur
      \<and> (cur \<noteq> [] \<longrightarrow> curY = t_y (last cur) \<and> curY \<noteq> Null))"

text \<open>
  \<open>cohesive first prev lns\<close>: each line of \<open>lns\<close>, read after \<open>prev\<close> into a paragraph that
  starts with \<open>first\<close>, does not start a new paragraph.
\<close>

fun cohesive :: "line \<Rightarrow> line \<Rightarrow> line list \<Rightarrow> bool" where
  "cohesive first prev [] = True"
| "cohesive first prev (lin # lns) =
     (\<not> isNewParagraph (l_y prev) [first] lin \<and> cohesive first lin lns)"

definition good_paragraph :: "para \<Rightarrow> bool" where
  "good_paragraph P =
     (case p_lines P of [] \<Rightarrow> False
      | first # rest \<Rightarrow>
          P = make_paragraph first rest \<and> trim (l_text first) \<noteq> [] \<and> cohesive first first rest)"

definition paragraph_state_ok :: "para list \<Rightarrow> line list \<Rightarrow> jsnum \<Rightarrow> bool" where
  "paragraph_state_ok paragraphs cur lastY =
     (list_all good_paragraph paragraphs
      \<and> (case cur of [] \<Rightarrow> True
          | first # acc \<Rightarrow>
              trim (l_text first) \<noteq> [] \<and> cohesive first first acc \<and> lastY = l_y (last cur)))"

definition nested_store :: "outline_item list \<Rightarrow> bool" where
  "nested_store items =
     (\<forall>n < length items. \<forall>c \<in> set (o_children (items ! n)).
        c < length items \<and> o_level (items ! n) < o_level (items ! c))"

definition outline_ok :: "outline_state \<Rightarrow> bool" where
  "outline_ok s =
     ((\<forall>i \<in> set (os_stack s). i < length (os_items s))
      \<and> (\<forall>i \<in> set (os_outline s). i < length (os_items s))
      \<and> nested_store (os_items s))"

definition element_ok :: "element \<Rightarrow> bool" where
  "element_ok e = (e_order e = calculateReadingOrder (e_pageNumber e) (e_y e))"

section \<open>Example documents\<close>

definition token_at :: "string \<Rightarrow> real \<Rightarrow> real \<Rightarrow> real \<Rightarrow> bool \<Rightarrow> token" where
  "token_at s x y fs b =
     \<lparr> t_text = str s, t_x = Num x, t_y = Num y, t_width = 0, t_height = fs,
       t_fontName = str (if b then ''Helvetica-Bold'' else ''Helvetica''),
       t_fontSize = fs, t_bold = b, t_italic = False \<rparr>"

definition line_at :: "string \<Rightarrow> real \<Rightarrow> real \<Rightarrow> bool \<Rightarrow> line" where
  "line_at s y fs b = make_line (Num y) (token_at s 0 y fs b) []"

definition paragraph_at :: "string \<Rightarrow> real \<Rightarrow> real \<Rightarrow> bool \<Rightarrow> para" where
  "paragraph_at s y fs b = make_paragraph (line_at s y fs b) []"

text \<open>A page whose lines are given: its paragraphs and its raw text follow from them.\<close>

definition page_of_lines :: "nat \<Rightarrow> line list \<Rightarrow> page" where
  "page_of_lines n lns =
     \<lparr> pg_pageNumber = n,
       pg_content = \<lparr> c_lines = lns, c_paragraphs = groupLinesIntoParagraphs lns \<rparr>,
       pg_rawText = js_join (str '' '') (map l_text lns),
       pg_error = False \<rparr>"

definition no_structure :: "structure" where
  "no_structure = \<lparr> st_headings = [], st_tables = [], st_lists = [] \<rparr>"

definition heading_at :: "string \<Rightarrow> nat \<Rightarrow> nat \<Rightarrow> real \<Rightarrow> heading" where
  "heading_at s lvl pg y =
     \<lparr> h_text = str s, h_level = lvl, h_fontSize = 12, h_bold = True, h_y = Num y,
       h_pageNumber = pg \<rparr>"

text \<open>Three tokens, each 4 units below the one before.\<close>

definition drift_tokens :: "token list" where
  "drift_tokens =
     [token_at ''a'' 0 100 10 False, token_at ''b'' 10 96 10 False, token_at ''c'' 20 92 10 False]"

text \<open>
  Two tokens on one line, and between them a token whose \<open>y\<close> is \<^verbatim>\<open>undefined\<close>.
\<close>

definition stray_token :: token where
  "stray_token = (token_at ''(draft)'' 40 0 10 False)\<lparr> t_y := Undefined \<rparr>"

definition total_tokens :: "token list" where
  "total_tokens = [token_at ''Total'' 0 100 10 False, token_at ''42.00'' 80 100 10 False]"

definition total_tokens_with_stray :: "token list" where
  "total_tokens_with_stray =
     [token_at ''Total'' 0 100 10 False, stray_token, token_at ''42.00'' 80 100 10 False]"

text \<open>A heading line, and two body lines 12 units apart further down.\<close>

definition sample_lines :: "line list" where
  "sample_lines =
     [line_at ''Overview'' 700 18 True,
      line_at ''The first body line'' 650 10 False,
      line_at ''and the second one.'' 638 10 False]"

text \<open>
  Scenario A: a bold 18pt line at \<open>y = 700\<close> and three 10pt lines at \<open>y = 650, 600, 560\<close>.
\<close>

definition scenario_A_tokens :: "jsstring \<Rightarrow> jsstring \<Rightarrow> jsstring \<Rightarrow> token list" where
  "scenario_A_tokens b1 b2 b3 =
     [token_at ''1. Introduction'' 72 700 18 True,
      (token_at [] 72 650 10 False)\<lparr> t_text := b1 \<rparr>,
      (token_at [] 72 600 10 False)\<lparr> t_text := b2 \<rparr>,
      (token_at [] 72 560 10 False)\<lparr> t_text := b3 \<rparr>]"

definition scenario_A_body :: "token list" where
  "scenario_A_body =
     scenario_A_tokens (str ''This report describes the system.'') (str ''It has three parts.'')
       (str ''Each part is tested on its own.'')"


definition lone_row_lines :: "line list" where
  "lone_row_lines =
     [line_at ''Some prose above'' 700 10 False,
      line_at ''Item   Qty   Price'' 650 10 False,
      line_at ''Some prose below'' 600 10 False]"



definition sample_headings :: "heading list" where
  "sample_headings =
     [heading_at ''Methods'' 1 2 700, heading_at ''Scope'' 2 1 600,
      heading_at ''Introduction'' 1 1 700, heading_at ''Aims'' 2 1 500]"

text \<open>A page with a heading, a body line, a smaller heading and another body line.\<close>

definition nested_page :: page where
  "nested_page =
     page_of_lines 1
       [line_at ''Results'' 700 18 True, line_at ''alpha text'' 650 10 False,
        line_at ''Details'' 600 14 True, line_at ''beta text'' 550 10 False]"


text \<open>A page whose only line mentions a page number near the start of a sentence.\<close>

definition reference_page :: page where
  "reference_page =
     page_of_lines 1
       [line_at ''See page 12 of the second volume for the full tables and the calibration data.''
          700 10 False]"

definition reference_document :: extracted where
  "reference_document = extract_document [reference_page]"

definition page_reference :: cross_reference where
  "page_reference =
     \<lparr> cr_type = str ''page'', cr_reference = str ''12'', cr_fullMatch = str ''page 12'',
       cr_pageNumber = 1,
       cr_context = str ''See page 12 of the second volume for the full tables a'' \<rparr>"

text \<open>
  Two pages with one line each, at heights \<open>y1\<close> and \<open>y2\<close>; then a document with the line of
  page 1 at the bottom edge \<open>y = 0\<close> and the line of page 2 at \<open>y = 10000\<close>, and one with the
  lines at \<open>y = 60\<close> and \<open>y = 700\<close>.
\<close>

definition plain_pages :: "real \<Rightarrow> real \<Rightarrow> page list" where
  "plain_pages y1 y2 =
     [page_of_lines 1 [line_at ''last line of page one'' y1 10 False],
      page_of_lines 2 [line_at ''first line of page two'' y2 10 False]]"

definition tie_document :: extracted where
  "tie_document = extract_document (plain_pages 0 10000)"

definition two_page_document :: extracted where
  "two_page_document = extract_document (plain_pages 60 700)"

section \<open>Properties of the line assembler\<close>

lemma mset_js_insort: "mset (js_insort cmp a xs) = add_mset a (mset xs)"
  by (induction xs) auto

lemma mset_js_sort: "mset (js_sort cmp xs) = mset xs"
  unfolding js_sort_def by (induction xs) (simp_all add: mset_js_insort)

lemma set_js_sort: "set (js_sort cmp xs) = set xs"
  using mset_js_sort [of cmp xs] by (metis set_mset_mset)

lemma push_line_ok:
  "line_state_ok lns cur curY \<Longrightarrow> L \<in> set (push_line lns cur curY) \<Longrightarrow> line_ok L"
  by (cases cur) (auto simp: line_state_ok_def push_line_def make_line_def line_ok_def)

lemma chained_snoc:
  "chained cur \<Longrightarrow> cur = [] \<or> abs_lt (js_minus (t_y item) (t_y (last cur))) 5
   \<Longrightarrow> chained (cur @ [item])"
  by (auto simp: chained_def successively_append_iff)

lemma line_state_join:
  assumes "line_state_ok lns cur curY" and "same_line curY item" and "t_y item \<noteq> Null"
  shows "line_state_ok lns (cur @ [item]) (t_y item)"
proof -
  have "cur = [] \<or> abs_lt (js_minus (t_y item) (t_y (last cur))) 5"
    using assms(1,2) by (auto simp: line_state_ok_def same_line_def)
  with assms show ?thesis
    by (simp add: line_state_ok_def chained_snoc)
qed

lemma line_state_start:
  assumes "line_state_ok lns cur curY" and "t_y item \<noteq> Null"
  shows "line_state_ok (push_line lns cur curY) [item] (t_y item)"
  using assms push_line_ok [OF assms(1)]
  by (simp add: line_state_ok_def chained_def)

lemma line_loop_ok:
  "line_state_ok lns cur curY \<Longrightarrow> \<forall>t \<in> set items. t_y t \<noteq> Null \<Longrightarrow>
   line_loop items lns cur curY = (lns', cur', curY') \<Longrightarrow> line_state_ok lns' cur' curY'"
proof (induction items arbitrary: lns cur curY)
  case Nil
  then show ?case by simp
next
  case (Cons item items)
  have nn: "t_y item \<noteq> Null" and rest: "\<forall>t \<in> set items. t_y t \<noteq> Null"
    using Cons.prems(2) by simp_all
  show ?case
  proof (cases "same_line curY item")
    case True
    with Cons.prems(3) have "line_loop items lns (cur @ [item]) (t_y item) = (lns', cur', curY')"
      by simp
    with Cons.IH [OF line_state_join [OF Cons.prems(1) True nn] rest] show ?thesis .
  next
    case False
    with Cons.prems(3)
    have "line_loop items (push_line lns cur curY) [item] (t_y item) = (lns', cur', curY')"
      by simp
    with Cons.IH [OF line_state_start [OF Cons.prems(1) nn] rest] show ?thesis .
  qed
qed

lemma assemble_lines_ok:
  assumes "\<forall>t \<in> set items. t_y t \<noteq> Null" and "L \<in> set (assemble_lines items)"
  shows "line_ok L"
proof -
  obtain lns cur curY where run: "line_loop items [] [] Null = (lns, cur, curY)"
    by (cases "line_loop items [] [] Null") auto
  have "line_state_ok [] [] Null" by (simp add: line_state_ok_def chained_def)
  from line_loop_ok [OF this assms(1) run] have "line_state_ok lns cur curY" .
  moreover from assms(2) run have "L \<in> set (push_line lns cur curY)"
    by (simp add: assemble_lines_def)
  ultimately show ?thesis by (rule push_line_ok)
qed

lemmas line_eval =
  processTextItems_def token_at_def js_sort_def item_compare_def abs_lt_def js_minus_def
  compare_result_def assemble_lines_def same_line_def push_line_def make_line_def Let_def

lemma drift_lines:
  "map l_y (c_lines (processTextItems drift_tokens)) = [Num 92]"
  "map (map t_y \<circ> l_items) (c_lines (processTextItems drift_tokens))
     = [[Num 100, Num 96, Num 92]]"
  by (simp_all add: drift_tokens_def line_eval)

text \<open>
  C1 (as stated): every member token of a Line lies within 5 units of the Line's \<open>y\<close>.
  It fails for three tokens at \<open>y = 100, 96, 92\<close>: they form one Line whose \<open>y\<close> is 92, the
  \<open>y\<close> of the last token joined, and the first token is 8 units away.
\<close>

theorem line_tolerance_counterexample:
  "map l_y (c_lines (processTextItems drift_tokens)) = [Num 92]
   \<and> map (map t_y \<circ> l_items) (c_lines (processTextItems drift_tokens))
       = [[Num 100, Num 96, Num 92]]
   \<and> \<not> abs_lt (js_minus (Num 100) (Num 92)) 5"
  by (simp add: drift_lines) (simp add: abs_lt_def js_minus_def)

text \<open>
  C1 (amended): for every page token list whose \<open>y\<close> coordinates are numbers or absent,
  every Line produced is non-empty, its \<open>y\<close> is the \<open>y\<close> of its last member token, and
  every member token after the first lies within 5 units of the member token before it.
\<close>

theorem line_members_chained:
  assumes "\<forall>t \<in> set textItems. t_y t \<noteq> Null"
    and "L \<in> set (c_lines (processTextItems textItems))"
  shows "l_items L \<noteq> [] \<and> l_y L = t_y (last (l_items L))
         \<and> successively (\<lambda>a b. abs_lt (js_minus (t_y b) (t_y a)) 5) (l_items L)"
proof -
  from assms(2) have ne: "textItems \<noteq> []"
    by (auto simp: processTextItems_def)
  with assms(2) have "L \<in> set (assemble_lines (js_sort item_compare textItems))"
    by (simp add: processTextItems_def Let_def)
  moreover have "\<forall>t \<in> set (js_sort item_compare textItems). t_y t \<noteq> Null"
    using assms(1) by (simp add: set_js_sort)
  ultimately have "line_ok L" using assemble_lines_ok by blast
  then show ?thesis by (simp add: line_ok_def chained_def)
qed

theorem line_members_chained_witness:
  "Null \<notin> set (map t_y drift_tokens)
   \<and> hd (c_lines (processTextItems drift_tokens)) \<in> set (c_lines (processTextItems drift_tokens))
   \<and> l_items (hd (c_lines (processTextItems drift_tokens))) \<noteq> []
   \<and> l_y (hd (c_lines (processTextItems drift_tokens)))
       = t_y (last (l_items (hd (c_lines (processTextItems drift_tokens)))))
   \<and> successively (\<lambda>a b. abs_lt (js_minus (t_y b) (t_y a)) 5)
       (l_items (hd (c_lines (processTextItems drift_tokens))))"
proof -
  have h1: "\<forall>t \<in> set drift_tokens. t_y t \<noteq> Null"
    by (simp add: drift_tokens_def token_at_def)
  have h2: "hd (c_lines (processTextItems drift_tokens))
              \<in> set (c_lines (processTextItems drift_tokens))"
    by (simp add: drift_tokens_def line_eval)
  have h0: "Null \<notin> set (map t_y drift_tokens)"
    by (simp add: drift_tokens_def token_at_def)
  from line_members_chained [OF h1 h2] h0 h2 show ?thesis by blast
qed

section \<open>Properties of the paragraph segmenter\<close>

lemma isNewParagraph_first:
  "isNewParagraph lastY (first # rest) lin = isNewParagraph lastY [first] lin"
  by (simp add: isNewParagraph_def)

lemma not_new_has_text: "\<not> isNewParagraph lastY cur lin \<Longrightarrow> trim (l_text lin) \<noteq> []"
  by (simp add: isNewParagraph_def)

lemma cohesive_snoc:
  "cohesive first prev acc \<Longrightarrow> \<not> isNewParagraph (l_y (last (prev # acc))) [first] lin
   \<Longrightarrow> cohesive first prev (acc @ [lin])"
  by (induction acc arbitrary: prev) auto

lemma paragraph_loop_cohesive:
  "cohesive first (last (first # acc)) lns \<Longrightarrow>
   paragraph_loop lns paragraphs (first # acc) (l_y (last (first # acc)))
     = (paragraphs, first # acc @ lns)"
proof (induction lns arbitrary: acc)
  case Nil
  then show ?case by simp
next
  case (Cons lin lns)
  from Cons.prems have keep: "\<not> isNewParagraph (l_y (last (first # acc))) [first] lin"
    and rest: "cohesive first lin lns" by simp_all
  from keep have keep': "\<not> isNewParagraph (l_y (last (first # acc))) (first # acc) lin"
    by (simp add: isNewParagraph_first [of _ first acc])
  have has_text: "trim (l_text lin) \<noteq> []" using keep by (rule not_new_has_text)
  have "paragraph_loop (lin # lns) paragraphs (first # acc) (l_y (last (first # acc)))
        = paragraph_loop lns paragraphs (first # (acc @ [lin])) (l_y lin)"
    using keep' has_text by (simp add: Let_def)
  also have "\<dots> = (paragraphs, first # (acc @ [lin]) @ lns)"
    using Cons.IH [of "acc @ [lin]"] rest by simp
  finally show ?case by simp
qed

lemma regroup_good_lines:
  assumes "trim (l_text first) \<noteq> []" and "cohesive first first rest"
  shows "groupLinesIntoParagraphs (first # rest) = [make_paragraph first rest]"
proof -
  have "paragraph_loop (first # rest) [] [] Null = paragraph_loop rest [] [first] (l_y first)"
    using assms(1) by (simp add: Let_def)
  also have "\<dots> = ([], first # rest)"
    using paragraph_loop_cohesive [of first "[]" rest "[]"] assms(2) by simp
  finally show ?thesis
    by (simp add: groupLinesIntoParagraphs_def push_paragraph_def)
qed

lemma regroup_good_paragraph:
  "good_paragraph P \<Longrightarrow> groupLinesIntoParagraphs (p_lines P) = [P]"
  by (auto simp: good_paragraph_def regroup_good_lines split: list.splits)

lemma push_paragraph_good:
  "paragraph_state_ok paragraphs cur lastY \<Longrightarrow>
   list_all good_paragraph (push_paragraph paragraphs cur)"
  by (cases cur)
     (auto simp: paragraph_state_ok_def push_paragraph_def good_paragraph_def make_paragraph_def)

lemma paragraph_step_ok:
  fixes lin :: line
  assumes "paragraph_state_ok paragraphs cur lastY"
  defines "flush \<equiv> isNewParagraph lastY cur lin \<and> cur \<noteq> []"
  shows "paragraph_state_ok
           (if flush then push_paragraph paragraphs cur else paragraphs)
           (if trim (l_text lin) \<noteq> [] then (if flush then [] else cur) @ [lin]
            else (if flush then [] else cur))
           (l_y lin)"
proof (cases flush)
  case True
  with push_paragraph_good [OF assms(1)] show ?thesis
    by (simp add: paragraph_state_ok_def)
next
  case False
  show ?thesis
  proof (cases cur)
    case Nil
    with False assms(1) show ?thesis by (simp add: paragraph_state_ok_def)
  next
    case (Cons first acc)
    with False have keep: "\<not> isNewParagraph lastY (first # acc) lin"
      by (simp add: flush_def)
    then have has_text: "trim (l_text lin) \<noteq> []" by (rule not_new_has_text)
    from assms(1) Cons have first_text: "trim (l_text first) \<noteq> []"
      and coh: "cohesive first first acc" and lastY: "lastY = l_y (last (first # acc))"
      by (simp_all add: paragraph_state_ok_def)
    from keep lastY have "\<not> isNewParagraph (l_y (last (first # acc))) [first] lin"
      by (simp add: isNewParagraph_first [of _ first acc])
    with coh have "cohesive first first (acc @ [lin])" by (rule cohesive_snoc)
    with False Cons has_text first_text assms(1) show ?thesis
      by (simp add: paragraph_state_ok_def)
  qed
qed

lemma paragraph_loop_good:
  "paragraph_state_ok paragraphs cur lastY \<Longrightarrow>
   paragraph_loop lns paragraphs cur lastY = (paragraphs', cur') \<Longrightarrow>
   list_all good_paragraph (push_paragraph paragraphs' cur')"
proof (induction lns arbitrary: paragraphs cur lastY)
  case Nil
  then show ?case using push_paragraph_good by auto
next
  case (Cons lin lns)
  from Cons.prems(2) Cons.IH [OF paragraph_step_ok [OF Cons.prems(1), of lin]]
  show ?case by (simp add: Let_def)
qed

lemma groupLinesIntoParagraphs_good:
  "list_all good_paragraph (groupLinesIntoParagraphs lns)"
proof (cases "lns = []")
  case True
  then show ?thesis by (simp add: groupLinesIntoParagraphs_def)
next
  case False
  obtain ps cur where run: "paragraph_loop lns [] [] Null = (ps, cur)"
    by (cases "paragraph_loop lns [] [] Null") auto
  have "paragraph_state_ok [] [] Null" by (simp add: paragraph_state_ok_def)
  from paragraph_loop_good [OF this run] False run show ?thesis
    by (simp add: groupLinesIntoParagraphs_def)
qed

text \<open>
  C4: the paragraph segmenter is a function of its Line sequence alone (it reads and
  writes no state outside its local variables), so two runs on the same sequence agree; and
  segmenting the Lines of any Paragraph it produced yields exactly that one Paragraph again.
\<close>

theorem segmenter_idempotent:
  assumes "P \<in> set (groupLinesIntoParagraphs lns)"
  shows "groupLinesIntoParagraphs (p_lines P) = [P]"
proof -
  from groupLinesIntoParagraphs_good [of lns] assms have "good_paragraph P"
    by (simp add: list_all_iff)
  then show ?thesis by (rule regroup_good_paragraph)
qed

lemmas paragraph_eval =
  groupLinesIntoParagraphs_def isNewParagraph_def lineSpacing_def push_paragraph_def
  make_paragraph_def abs_gt_def js_minus_def Let_def

lemma sample_line_text:
  "trim (l_text (line_at ''Overview'' 700 18 True)) \<noteq> []"
  "trim (l_text (line_at ''The first body line'' 650 10 False)) \<noteq> []"
  "trim (l_text (line_at ''and the second one.'' 638 10 False)) \<noteq> []"
  by (simp_all add: line_at_def make_line_def token_at_def str_def trim_def is_space_def)

lemma line_at_sel [simp]:
  "l_y (line_at s y fs b) = Num y" "l_fontSize (line_at s y fs b) = fs"
  by (simp_all add: line_at_def make_line_def token_at_def)

lemma sample_paragraphs:
  "map p_lines (groupLinesIntoParagraphs sample_lines)
     = [[line_at ''Overview'' 700 18 True],
        [line_at ''The first body line'' 650 10 False, line_at ''and the second one.'' 638 10 False]]"
  by (simp add: sample_lines_def paragraph_eval sample_line_text)

theorem segmenter_idempotent_witness:
  "last (groupLinesIntoParagraphs sample_lines) \<in> set (groupLinesIntoParagraphs sample_lines)
   \<and> length (p_lines (last (groupLinesIntoParagraphs sample_lines))) = 2
   \<and> groupLinesIntoParagraphs (p_lines (last (groupLinesIntoParagraphs sample_lines)))
       = [last (groupLinesIntoParagraphs sample_lines)]"
proof -
  have ne: "groupLinesIntoParagraphs sample_lines \<noteq> []"
    using sample_paragraphs by auto
  then have h: "last (groupLinesIntoParagraphs sample_lines)
                  \<in> set (groupLinesIntoParagraphs sample_lines)"
    by simp
  have "p_lines (last (groupLinesIntoParagraphs sample_lines))
          = last (map p_lines (groupLinesIntoParagraphs sample_lines))"
    using ne by (simp add: last_map)
  then have "length (p_lines (last (groupLinesIntoParagraphs sample_lines))) = 2"
    by (simp add: sample_paragraphs)
  with segmenter_idempotent [OF h] h show ?thesis by blast
qed

section \<open>Tokens without coordinates\<close>

lemma push_line_items:
  "concat (map l_items (push_line lns cur y)) = concat (map l_items lns) @ cur"
  by (cases cur) (simp_all add: push_line_def make_line_def)

lemma line_loop_items:
  "line_loop items lns cur curY = (lns', cur', curY') \<Longrightarrow>
   concat (map l_items lns') @ cur' = concat (map l_items lns) @ cur @ items"
proof (induction items arbitrary: lns cur curY)
  case Nil
  then show ?case by simp
next
  case (Cons item items)
  show ?case
  proof (cases "same_line curY item")
    case True
    with Cons.prems have "line_loop items lns (cur @ [item]) (t_y item) = (lns', cur', curY')"
      by simp
    from Cons.IH [OF this] show ?thesis by simp
  next
    case False
    with Cons.prems
    have "line_loop items (push_line lns cur curY) [item] (t_y item) = (lns', cur', curY')"
      by simp
    from Cons.IH [OF this] show ?thesis by (simp add: push_line_items)
  qed
qed

lemma assemble_lines_items: "concat (map l_items (assemble_lines items)) = items"
proof -
  obtain lns cur curY where run: "line_loop items [] [] Null = (lns, cur, curY)"
    by (cases "line_loop items [] [] Null") auto
  from line_loop_items [OF run] run show ?thesis
    by (simp add: assemble_lines_def push_line_items)
qed

lemma chained_defined:
  "chained ts \<Longrightarrow> 2 \<le> length ts \<Longrightarrow> \<forall>t \<in> set ts. t_y t \<noteq> Undefined"
proof (induction ts rule: induct_list012)
  case 1
  then show ?case by simp
next
  case (2 a)
  then show ?case by simp
next
  case (3 a b ts)
  from "3.prems"(1) have near: "abs_lt (js_minus (t_y b) (t_y a)) 5" and rest: "chained (b # ts)"
    by (simp_all add: chained_def)
  from near have ab: "t_y a \<noteq> Undefined" "t_y b \<noteq> Undefined"
    by (auto simp: abs_lt_def js_minus_def split: option.splits)
  show ?case
  proof (cases "ts = []")
    case True
    with ab show ?thesis by simp
  next
    case False
    then have "2 \<le> length (b # ts)" by (cases ts) simp_all
    with "3.IH"(2) rest have "\<forall>u \<in> set (b # ts). t_y u \<noteq> Undefined" by blast
    with ab show ?thesis by simp
  qed
qed

lemma line_ok_stray:
  assumes "line_ok L" and "t \<in> set (l_items L)" and "t_y t = Undefined"
  shows "l_items L = [t]"
proof (cases "2 \<le> length (l_items L)")
  case True
  with assms chained_defined [of "l_items L"] show ?thesis by (auto simp: line_ok_def)
next
  case False
  then have "length (l_items L) \<le> 1" by simp
  with assms(2) show ?thesis by (cases "l_items L") auto
qed

text \<open>
  C7 (amended): the line assembler has no check for missing coordinates.  It raises no error
  and drops no token: the members of the Lines it produces are exactly the input tokens.  When
  no \<open>y\<close> is \<^verbatim>\<open>null\<close>, a token whose \<open>y\<close> is absent is the only member of its Line.
\<close>

theorem malformed_token_kept:
  "mset (concat (map l_items (c_lines (processTextItems textItems)))) = mset textItems
   \<and> ((\<forall>t \<in> set textItems. t_y t \<noteq> Null) \<longrightarrow>
        (\<forall>L \<in> set (c_lines (processTextItems textItems)). \<forall>t \<in> set (l_items L).
           t_y t = Undefined \<longrightarrow> l_items L = [t]))"
proof (cases "textItems = []")
  case True
  then show ?thesis by (simp add: processTextItems_def)
next
  case False
  then have lines: "c_lines (processTextItems textItems)
      = assemble_lines (js_sort item_compare textItems)"
    by (simp add: processTextItems_def Let_def)
  have "mset (concat (map l_items (c_lines (processTextItems textItems)))) = mset textItems"
    by (simp add: lines assemble_lines_items mset_js_sort)
  moreover have "l_items L = [t]"
    if "\<forall>t \<in> set textItems. t_y t \<noteq> Null" "L \<in> set (c_lines (processTextItems textItems))"
      "t \<in> set (l_items L)" "t_y t = Undefined" for L t
  proof -
    from that(1) have "\<forall>u \<in> set (js_sort item_compare textItems). t_y u \<noteq> Null"
      by (simp add: set_js_sort)
    moreover from that(2) have "L \<in> set (assemble_lines (js_sort item_compare textItems))"
      by (simp add: lines)
    ultimately have "line_ok L" by (rule assemble_lines_ok)
    then show ?thesis using that(3,4) by (rule line_ok_stray)
  qed
  ultimately show ?thesis by blast
qed

lemma stray_lines:
  "map l_text (c_lines (processTextItems total_tokens_with_stray))
     = [str ''Total'', str ''(draft)'', str ''42.00'']"
  "map l_y (c_lines (processTextItems total_tokens_with_stray)) = [Num 100, Undefined, Num 100]"
  "map p_text (c_paragraphs (processTextItems total_tokens_with_stray))
     = [str ''Total (draft) 42.00'']"
  "map l_text (c_lines (processTextItems total_tokens)) = [str ''Total 42.00'']"
  "map p_text (c_paragraphs (processTextItems total_tokens)) = [str ''Total 42.00'']"
  by (simp_all add: total_tokens_with_stray_def total_tokens_def stray_token_def line_eval
      paragraph_eval abs_gt_def str_def trim_def is_space_def)

text \<open>
  C7 (as stated): a token without coordinates is skipped, and the other tokens of the page are
  grouped as if it had never been there.  A token whose \<open>y\<close> is absent, read between two
  tokens of one line, becomes a Line of its own and splits that line in two; the Paragraph
  text contains it.
\<close>

theorem malformed_token_counterexample:
  "map l_text (c_lines (processTextItems total_tokens_with_stray))
     = [str ''Total'', str ''(draft)'', str ''42.00'']
   \<and> map l_text (c_lines (processTextItems total_tokens)) = [str ''Total 42.00'']
   \<and> map p_text (c_paragraphs (processTextItems total_tokens_with_stray))
       = [str ''Total (draft) 42.00'']
   \<and> map p_text (c_paragraphs (processTextItems total_tokens)) = [str ''Total 42.00'']"
  by (simp add: stray_lines)

theorem malformed_token_kept_witness:
  "t_y stray_token = Undefined
   \<and> stray_token \<in># mset (concat (map l_items (c_lines (processTextItems total_tokens_with_stray))))
   \<and> l_items (c_lines (processTextItems total_tokens_with_stray) ! 1) = [stray_token]"
proof -
  let ?lines = "c_lines (processTextItems total_tokens_with_stray)"
  have y: "t_y stray_token = Undefined" by (simp add: stray_token_def)
  have nn: "\<forall>t \<in> set total_tokens_with_stray. t_y t \<noteq> Null"
    by (simp add: total_tokens_with_stray_def stray_token_def token_at_def)
  have len: "length ?lines = 3"
    using stray_lines(2) by (metis length_map length_Cons list.size(3) numeral_3_eq_3)
  then have L: "?lines ! 1 \<in> set ?lines" by simp
  have "t_y (hd (l_items (?lines ! 1))) = Undefined \<and> l_items (?lines ! 1) \<noteq> []"
    by (simp add: total_tokens_with_stray_def stray_token_def line_eval)
  then have t: "hd (l_items (?lines ! 1)) \<in> set (l_items (?lines ! 1))"
    and u: "t_y (hd (l_items (?lines ! 1))) = Undefined" by simp_all
  from malformed_token_kept [of total_tokens_with_stray] nn L t u
  have kept: "mset (concat (map l_items ?lines)) = mset total_tokens_with_stray"
    and alone: "l_items (?lines ! 1) = [hd (l_items (?lines ! 1))]"
    by blast+
  have "stray_token \<in># mset (concat (map l_items ?lines))"
    unfolding kept by (simp add: total_tokens_with_stray_def)
  moreover have "hd (l_items (?lines ! 1)) = stray_token"
    by (simp add: total_tokens_with_stray_def stray_token_def line_eval)
  ultimately show ?thesis using y alone by simp
qed

section \<open>Scenario A: a numbered heading above body text\<close>

lemma dropWhile_prefix_stable:
  assumes "x = t @ z" and "x = [] \<or> \<not> P (hd x)"
  shows "dropWhile P t = t"
  using assms by (cases t) auto

lemma trim_idem [simp]: "trim (trim s) = trim s"
proof -
  define x where "x = dropWhile is_space s"
  define y where "y = dropWhile is_space (rev x)"
  have t: "trim s = rev y" by (simp add: trim_def x_def y_def)
  have "rev x = takeWhile is_space (rev x) @ y" by (simp add: y_def)
  then have "rev (rev x) = rev (takeWhile is_space (rev x) @ y)" by simp
  then have x: "x = rev y @ rev (takeWhile is_space (rev x))" by simp
  have "x = [] \<or> \<not> is_space (hd x)"
    unfolding x_def using hd_dropWhile [of is_space s] by blast
  with x have "dropWhile is_space (rev y) = rev y" by (rule dropWhile_prefix_stable)
  moreover have "dropWhile is_space y = y" by (simp add: y_def)
  ultimately have "trim (rev y) = rev y" by (simp add: trim_def)
  then show ?thesis unfolding t .
qed

lemma intro_trim: "trim (str ''1. Introduction'') = str ''1. Introduction''"
  by (simp add: trim_def str_def is_space_def)

lemma intro_nonempty: "str ''1. Introduction'' \<noteq> []"
  by (simp add: str_def)

lemmas scenario_eval =
  scenario_A_tokens_def processTextItems_def token_at_def js_sort_def item_compare_def abs_lt_def
  js_minus_def compare_result_def assemble_lines_def same_line_def push_line_def make_line_def
  groupLinesIntoParagraphs_def isNewParagraph_def lineSpacing_def push_paragraph_def
  make_paragraph_def abs_gt_def Let_def

lemma scenario_A_paragraphs:
  assumes "trim b1 \<noteq> []" and "trim b2 \<noteq> []" and "trim b3 \<noteq> []"
  shows "map p_text (c_paragraphs (processTextItems (scenario_A_tokens b1 b2 b3)))
           = [str ''1. Introduction'', trim b1, trim b2, trim b3]"
    and "map p_fontSize (c_paragraphs (processTextItems (scenario_A_tokens b1 b2 b3)))
           = [18, 10, 10, 10]"
    and "map p_bold (c_paragraphs (processTextItems (scenario_A_tokens b1 b2 b3)))
           = [True, False, False, False]"
    and "map p_y (c_paragraphs (processTextItems (scenario_A_tokens b1 b2 b3)))
           = [Num 700, Num 650, Num 600, Num 560]"
    and "map (map l_y \<circ> p_lines) (c_paragraphs (processTextItems (scenario_A_tokens b1 b2 b3)))
           = [[Num 700], [Num 650], [Num 600], [Num 560]]"
  using assms by (simp_all add: scenario_eval intro_trim intro_nonempty)

lemma length_str [simp]: "length (str s) = length s"
  by (simp add: str_def)

lemma scenario_A_headings:
  assumes "trim b1 \<noteq> []" and "trim b2 \<noteq> []" and "trim b3 \<noteq> []"
    and "\<not> hasHeadingPattern (trim b1)" and "\<not> hasHeadingPattern (trim b2)"
    and "\<not> hasHeadingPattern (trim b3)"
  shows "identifyHeadings (c_paragraphs (processTextItems (scenario_A_tokens b1 b2 b3)))
           = [\<lparr> h_text = str ''1. Introduction'', h_level = 3, h_fontSize = 18, h_bold = True,
                h_y = Num 700 \<rparr>]"
  using assms
  by (simp add: scenario_eval intro_trim intro_nonempty identifyHeadings_def avgFontSize_def
      is_heading_def heading_of_def heading_level_def exceeds_def)

lemma clean_intro: "cleanHeadingText (str ''1. Introduction'') = str ''. Introduction''"
  by (simp add: cleanHeadingText_def strip_numbering_def strip_prefix_def starts_with_ci_def
      lower_def trim_def str_def is_space_def is_digit_def)

lemma body_facts:
  "trim (str ''This report describes the system.'') \<noteq> []"
  "trim (str ''It has three parts.'') \<noteq> []"
  "trim (str ''Each part is tested on its own.'') \<noteq> []"
  "\<not> hasHeadingPattern (trim (str ''This report describes the system.''))"
  "\<not> hasHeadingPattern (trim (str ''It has three parts.''))"
  "\<not> hasHeadingPattern (trim (str ''Each part is tested on its own.''))"
  by (simp_all add: hasHeadingPattern_def starts_with_def trim_def str_def is_space_def is_digit_def)

text \<open>
  C5 (as stated): on the page of Scenario A the classifier yields one Heading with
  \<open>cleanText = Introduction\<close> and one Paragraph holding the three body lines.  The body lines
  are 50 and 40 units apart, more than the gap threshold of 20, so each is a Paragraph of its
  own; and \<^verbatim>\<open>cleanHeadingText\<close> removes only the digit of \<open>1.\<close> and leaves \<open>. Introduction\<close>.
\<close>

theorem scenario_A_counterexample:
  "length (c_paragraphs (processTextItems scenario_A_body)) = 4
   \<and> map (length \<circ> p_lines) (c_paragraphs (processTextItems scenario_A_body)) = [1, 1, 1, 1]
   \<and> map (cleanHeadingText \<circ> h_text)
         (identifyHeadings (c_paragraphs (processTextItems scenario_A_body)))
       = [str ''. Introduction'']
   \<and> str ''. Introduction'' \<noteq> str ''Introduction''"
proof -
  have "map (map l_y \<circ> p_lines) (c_paragraphs (processTextItems scenario_A_body))
          = [[Num 700], [Num 650], [Num 600], [Num 560]]"
    unfolding scenario_A_body_def by (rule scenario_A_paragraphs(5)) (rule body_facts)+
  then have "map (length \<circ> p_lines) (c_paragraphs (processTextItems scenario_A_body)) = [1, 1, 1, 1]"
    by (auto simp: map_eq_Cons_conv)
  moreover from this have "length (c_paragraphs (processTextItems scenario_A_body)) = 4"
    by (auto simp: map_eq_Cons_conv)
  moreover have "identifyHeadings (c_paragraphs (processTextItems scenario_A_body))
          = [\<lparr> h_text = str ''1. Introduction'', h_level = 3, h_fontSize = 18, h_bold = True,
               h_y = Num 700 \<rparr>]"
    unfolding scenario_A_body_def by (rule scenario_A_headings) (rule body_facts)+
  moreover have "str ''. Introduction'' \<noteq> str ''Introduction''" by (simp add: str_def)
  ultimately show ?thesis by (simp add: clean_intro)
qed

text \<open>
  C5 (amended): on the page of Scenario A, with body lines that are not blank and do not match
  the heading pattern, the segmenter yields four Paragraphs, one per line, and the classifier
  yields exactly one Heading, \<open>1. Introduction\<close>, of level 3: the page mean is 12, and 18 exceeds
  1.3 times the mean but not 1.5 times.
\<close>

theorem scenario_A_result:
  assumes "trim b1 \<noteq> []" and "trim b2 \<noteq> []" and "trim b3 \<noteq> []"
    and "\<not> hasHeadingPattern (trim b1)" and "\<not> hasHeadingPattern (trim b2)"
    and "\<not> hasHeadingPattern (trim b3)"
  shows "map p_text (c_paragraphs (processTextItems (scenario_A_tokens b1 b2 b3)))
           = [str ''1. Introduction'', trim b1, trim b2, trim b3]
         \<and> map (map l_y \<circ> p_lines) (c_paragraphs (processTextItems (scenario_A_tokens b1 b2 b3)))
           = [[Num 700], [Num 650], [Num 600], [Num 560]]
         \<and> identifyHeadings (c_paragraphs (processTextItems (scenario_A_tokens b1 b2 b3)))
           = [\<lparr> h_text = str ''1. Introduction'', h_level = 3, h_fontSize = 18, h_bold = True,
                h_y = Num 700 \<rparr>]"
  using scenario_A_paragraphs(1,5) [OF assms(1-3)] scenario_A_headings [OF assms] by simp

theorem scenario_A_result_witness:
  "trim (str ''This report describes the system.'') \<noteq> []
   \<and> \<not> hasHeadingPattern (trim (str ''This report describes the system.''))
   \<and> map (map l_y \<circ> p_lines) (c_paragraphs (processTextItems scenario_A_body))
       = [[Num 700], [Num 650], [Num 600], [Num 560]]
   \<and> identifyHeadings (c_paragraphs (processTextItems scenario_A_body))
       = [\<lparr> h_text = str ''1. Introduction'', h_level = 3, h_fontSize = 18, h_bold = True,
            h_y = Num 700 \<rparr>]"
  using scenario_A_result [OF body_facts] body_facts(1,4)
  unfolding scenario_A_body_def by simp

section \<open>The list recognizer and roman numerals\<close>

lemmas text_eval =
  paragraph_at_def make_paragraph_def line_at_def make_line_def token_at_def str_def trim_def
  is_space_def is_digit_def is_letter_def is_bullet_def is_dash_def is_dot_paren_def

lemma roman_paragraph_text:
  "trim (p_text (paragraph_at ''ii. second item'' 700 10 False)) = str ''ii. second item''"
  "trim (p_text (paragraph_at ''IV) fourth item'' 700 10 False)) = str ''IV) fourth item''"
  by (simp_all add: text_eval)

lemma roman_not_item:
  "\<not> isBulletPoint (str ''ii. second item'')" "\<not> isNumberedItem (str ''ii. second item'')"
  "\<not> isLetterItem (str ''ii. second item'')"
  "\<not> isBulletPoint (str ''IV) fourth item'')" "\<not> isNumberedItem (str ''IV) fourth item'')"
  "\<not> isLetterItem (str ''IV) fourth item'')"
  by (simp_all add: isBulletPoint_def isNumberedItem_def isLetterItem_def text_eval)

lemma roman_pattern_matches:
  "listPatterns_roman (str ''ii. second item'')" "listPatterns_roman (str ''IV) fourth item'')"
  by (simp_all add: listPatterns_roman_def is_roman_letter_def text_eval)

text \<open>
  C8: a Paragraph whose first line begins with a roman-numeral marker is classified as a list
  item.  \<^verbatim>\<open>identifyLists\<close> tests the bullet, numbered and single-letter patterns only: the
  paragraphs \<open>ii. second item\<close> and \<open>IV) fourth item\<close> match the roman pattern declared in
  \<open>listPatterns\<close> and yet produce no list.
\<close>

theorem roman_marker_not_recognised:
  "listPatterns_roman (str ''ii. second item'')
   \<and> identifyLists [paragraph_at ''ii. second item'' 700 10 False] = []
   \<and> listPatterns_roman (str ''IV) fourth item'')
   \<and> identifyLists [paragraph_at ''IV) fourth item'' 700 10 False] = []"
  by (simp add: roman_pattern_matches identifyLists_def roman_paragraph_text roman_not_item)

section \<open>Properties of the table detector\<close>



lemma push_table_short [simp]: "push_table tables [] = tables" "push_table tables [c] = tables"
  by (simp_all add: push_table_def)




















section \<open>Properties of the outline builder\<close>

lemma pop_stack_eq:
  "pop_stack items lvl stack = rev (dropWhile (\<lambda>i. o_level (items ! i) \<ge> lvl) (rev stack))"
proof (induction stack rule: rev_induct)
  case Nil
  show ?case by (subst pop_stack.simps) simp
next
  case (snoc top stack)
  then show ?case by (subst pop_stack.simps) simp
qed

lemma pop_stack_subset: "set (pop_stack items lvl stack) \<subseteq> set stack"
  unfolding pop_stack_eq using set_dropWhileD by fastforce

lemma pop_stack_top:
  assumes "pop_stack items lvl stack \<noteq> []"
  shows "o_level (items ! last (pop_stack items lvl stack)) < lvl"
proof -
  let ?d = "dropWhile (\<lambda>i. o_level (items ! i) \<ge> lvl) (rev stack)"
  from assms have ne: "?d \<noteq> []" by (simp add: pop_stack_eq)
  then have "\<not> (o_level (items ! hd ?d) \<ge> lvl)" by (rule hd_dropWhile)
  moreover have "last (pop_stack items lvl stack) = hd ?d"
    using ne by (simp add: pop_stack_eq last_rev)
  ultimately show ?thesis by simp
qed

lemma nested_store_snoc:
  assumes "nested_store items"
  shows "nested_store (items @ [\<lparr> o_text = t, o_level = l, o_pageNumber = p, o_children = [] \<rparr>])"
  using assms unfolding nested_store_def
  by (auto simp: nth_append less_Suc_eq)

lemma nested_store_push_child:
  assumes "nested_store items" and "p < length items" and "c < length items"
    and "o_level (items ! p) < o_level (items ! c)" and "p \<noteq> c"
  shows "nested_store (push_child items p c)"
  using assms unfolding nested_store_def push_child_def
  by (auto simp: nth_list_update)

lemma length_push_child [simp]: "length (push_child items p c) = length items"
  by (simp add: push_child_def)

lemma outline_step_ok:
  assumes "outline_ok s"
  shows "outline_ok (outline_step s h)"
proof -
  define new where "new = \<lparr> o_text = h_text h, o_level = h_level h,
                            o_pageNumber = h_pageNumber h, o_children = [] \<rparr>"
  define items where "items = os_items s @ [new]"
  define item where "item = length (os_items s)"
  define stack where "stack = pop_stack items (h_level h) (os_stack s)"
  have stack_lt: "\<forall>i \<in> set stack. i < item"
    using assms pop_stack_subset [of items "h_level h" "os_stack s"]
    by (auto simp: outline_ok_def stack_def item_def)
  have roots_lt: "\<forall>i \<in> set (os_outline s). i < item"
    using assms by (simp add: outline_ok_def item_def)
  have len: "length items = Suc item" by (simp add: items_def item_def)
  have nested: "nested_store items"
    using assms nested_store_snoc unfolding items_def new_def outline_ok_def by blast
  have step: "outline_step s h =
      (if stack = []
       then \<lparr> os_items = items, os_outline = os_outline s @ [item], os_stack = stack @ [item] \<rparr>
       else \<lparr> os_items = push_child items (last stack) item, os_outline = os_outline s,
              os_stack = stack @ [item] \<rparr>)"
    by (simp add: outline_step_def Let_def items_def item_def stack_def new_def)
  show ?thesis
  proof (cases "stack = []")
    case True
    with step nested roots_lt len show ?thesis
      by (auto simp: outline_ok_def less_Suc_eq)
  next
    case False
    then have top: "last stack \<in> set stack" by simp
    with stack_lt have p: "last stack < item" by blast
    have "o_level (items ! last stack) < h_level h"
      using False pop_stack_top [of items "h_level h" "os_stack s"] by (simp add: stack_def)
    moreover have "o_level (items ! item) = h_level h"
      by (simp add: items_def item_def new_def)
    ultimately have "nested_store (push_child items (last stack) item)"
      using nested p len by (intro nested_store_push_child) auto
    with step False stack_lt roots_lt len show ?thesis
      by (auto simp: outline_ok_def less_Suc_eq)
  qed
qed

lemma foldl_outline_ok: "outline_ok s \<Longrightarrow> outline_ok (foldl outline_step s hs)"
  by (induction hs arbitrary: s) (simp_all add: outline_step_ok)

lemma generateOutline_ok: "outline_ok (generateOutline hs)"
  unfolding generateOutline_def
  by (rule foldl_outline_ok) (simp add: outline_ok_def nested_store_def)

lemma outline_nodes_bounded:
  assumes "outline_ok s" and "n \<in> outline_nodes (os_items s) (os_outline s)"
  shows "n < length (os_items s)"
  using assms(2)
proof (induction rule: outline_nodes.induct)
  case (root r)
  with assms(1) show ?case by (simp add: outline_ok_def)
next
  case (child n c)
  with assms(1) show ?case by (auto simp: outline_ok_def nested_store_def)
qed

text \<open>
  C3: in the outline built by the level-aware stack algorithm, every child of every node
  of the resulting forest has a level strictly greater than the node's level.
\<close>

theorem outline_children_deeper:
  assumes "n \<in> outline_nodes (os_items (generateOutline hs)) (os_outline (generateOutline hs))"
    and "c \<in> set (o_children (os_items (generateOutline hs) ! n))"
  shows "o_level (os_items (generateOutline hs) ! n) < o_level (os_items (generateOutline hs) ! c)"
proof -
  have ok: "outline_ok (generateOutline hs)" by (rule generateOutline_ok)
  from outline_nodes_bounded [OF ok assms(1)] have "n < length (os_items (generateOutline hs))" .
  with ok assms(2) show ?thesis
    by (auto simp: outline_ok_def nested_store_def)
qed

lemmas outline_eval =
  generateOutline_def sample_headings_def heading_at_def js_sort_def heading_compare_def
  compare_result_def js_minus_def outline_step_def pop_stack_eq push_child_def Let_def

lemma sample_outline:
  "os_outline (generateOutline sample_headings) = [0, 3]"
  "map o_children (os_items (generateOutline sample_headings)) = [[1, 2], [], [], []]"
  "map o_level (os_items (generateOutline sample_headings)) = [1, 2, 2, 1]"
  by (simp_all add: outline_eval)

theorem outline_children_deeper_witness:
  "0 \<in> outline_nodes (os_items (generateOutline sample_headings))
          (os_outline (generateOutline sample_headings))
   \<and> 1 \<in> set (o_children (os_items (generateOutline sample_headings) ! 0))
   \<and> o_level (os_items (generateOutline sample_headings) ! 0)
       < o_level (os_items (generateOutline sample_headings) ! 1)"
proof -
  have h1: "0 \<in> outline_nodes (os_items (generateOutline sample_headings))
                  (os_outline (generateOutline sample_headings))"
    by (rule outline_nodes.root) (simp add: sample_outline)
  have "o_children (os_items (generateOutline sample_headings) ! 0) = [1, 2]"
    using sample_outline(2) by (cases "os_items (generateOutline sample_headings)") auto
  then have h2: "1 \<in> set (o_children (os_items (generateOutline sample_headings) ! 0))"
    by simp
  from outline_children_deeper [OF h1 h2] h1 h2 show ?thesis by blast
qed

section \<open>Properties of the sections\<close>

lemma section_loop_length: "length (section_loop pages hs remaining) = length remaining"
  by (induction remaining) simp_all







lemma line_at_text:
  "trim (str s) = str s \<Longrightarrow> l_text (line_at s y fs b) = str s"
  by (simp add: line_at_def make_line_def token_at_def)

lemma line_at_fields [simp]:
  "l_bold (line_at s y fs b) = b"
  by (simp_all add: line_at_def make_line_def token_at_def)




lemma paragraph_at_sel [simp]:
  "p_y (paragraph_at s y fs b) = Num y" "p_fontSize (paragraph_at s y fs b) = fs"
  "p_bold (paragraph_at s y fs b) = b"
  by (simp_all add: paragraph_at_def make_paragraph_def)

lemma paragraph_at_text:
  "trim (str s) = str s \<Longrightarrow> p_text (paragraph_at s y fs b) = str s"
  by (simp add: paragraph_at_def make_paragraph_def line_at_text)


lemma nested_page_number [simp]: "pg_pageNumber nested_page = 1" "\<not> pg_error nested_page"
  by (simp_all add: nested_page_def page_of_lines_def)


lemma on_page_sel [simp]:
  "h_text (on_page n h) = h_text h" "h_y (on_page n h) = h_y h" "h_level (on_page n h) = h_level h"
  "h_pageNumber (on_page n h) = n"
  by (simp_all add: on_page_def found_heading.defs heading.defs)








section \<open>Properties of the cross-reference extractor\<close>

lemma length_drop_dotted: "length (drop_dotted s) \<le> length s"
proof (induction s rule: drop_dotted.induct)
  case 1
  then show ?case by simp
next
  case (2 c cs)
  have "length (dropWhile is_digit cs) \<le> length cs" by (rule length_dropWhile_le)
  with 2 show ?case by (auto simp: le_Suc_eq)
qed

lemma match_group_pos: "match_group g s = Some n \<Longrightarrow> 0 < n \<and> n \<le> length s"
proof (cases g)
  case Digits
  assume "match_group g s = Some n"
  with Digits show ?thesis
    by (auto simp: match_group_def length_takeWhile_le split: if_splits)
next
  case DottedDigits
  assume m: "match_group g s = Some n"
  with DottedDigits have ne: "takeWhile is_digit s \<noteq> []"
    and n: "n = length s - length (drop_dotted (dropWhile is_digit s))"
    by (auto simp: match_group_def split: if_splits)
  have "length (drop_dotted (dropWhile is_digit s)) \<le> length (dropWhile is_digit s)"
    by (rule length_drop_dotted)
  moreover have "length (dropWhile is_digit s) < length s"
    using ne by (cases s) (auto simp: length_dropWhile_le less_Suc_eq_le split: if_splits)
  ultimately show ?thesis using n by simp
next
  case Letter
  assume "match_group g s = Some n"
  with Letter show ?thesis
    by (auto simp: match_group_def split: list.splits if_splits)
qed

lemma match_word_pos: "match_word g w s = Some (n, grp) \<Longrightarrow> 0 < n \<and> n \<le> length s"
proof -
  assume m: "match_word g w s = Some (n, grp)"
  define after_word where "after_word = drop (length w) s"
  define rest where "rest = dropWhile is_space after_word"
  from m have sw: "starts_with_ci w s" by (auto simp: match_word_def split: if_splits)
  then have wl: "length w \<le> length s"
    by (metis starts_with_ci_def length_map length_take min.cobounded1)
  from m sw obtain k where k: "match_group g rest = Some k"
    and n: "n = length w + length (takeWhile is_space after_word) + k"
    by (auto simp: match_word_def Let_def after_word_def rest_def split: option.splits)
  from match_group_pos [OF k] have kp: "0 < k" "k \<le> length rest" by simp_all
  have "length (takeWhile is_space after_word) + length rest = length after_word"
    unfolding rest_def by (metis length_append takeWhile_dropWhile_id)
  moreover have "length after_word = length s - length w" by (simp add: after_word_def)
  ultimately show ?thesis using n kp wl by simp
qed

lemma match_here_pos: "match_here pat s = Some (n, grp) \<Longrightarrow> 0 < n \<and> n \<le> length s"
proof -
  assume "match_here pat s = Some (n, grp)"
  then have "(n, grp) \<in> set (List.map_filter (\<lambda>w. match_word (rp_group pat) w s) (rp_words pat))"
    by (auto simp: match_here_def split: list.splits)
  then obtain w where "match_word (rp_group pat) w s = Some (n, grp)"
    by (auto simp: List.map_filter_def)
  then show ?thesis by (rule match_word_pos)
qed

lemma scan_matches_bounds:
  "(i, n, grp) \<in> set (scan_matches pat s start skip) \<Longrightarrow>
   start \<le> i \<and> i + n \<le> start + length s \<and> 0 < n"
proof (induction s arbitrary: start skip)
  case Nil
  then show ?case by simp
next
  case (Cons c cs)
  show ?case
  proof (cases "0 < skip")
    case True
    with Cons.prems have "(i, n, grp) \<in> set (scan_matches pat cs (Suc start) (skip - 1))" by simp
    from Cons.IH [OF this] show ?thesis by simp
  next
    case False
    show ?thesis
    proof (cases "match_here pat (c # cs)")
      case None
      with False Cons.prems have "(i, n, grp) \<in> set (scan_matches pat cs (Suc start) 0)" by simp
      from Cons.IH [OF this] show ?thesis by simp
    next
      case (Some m)
      obtain k g where m: "m = (k, g)" by (cases m)
      from match_here_pos [of pat "c # cs" k g] Some m
      have k: "0 < k" "k \<le> Suc (length cs)" by simp_all
      from False Some m Cons.prems
      consider "(i, n, grp) = (start, k, g)"
        | "(i, n, grp) \<in> set (scan_matches pat cs (Suc start) (k - 1))"
        by auto
      then show ?thesis
      proof cases
        case 1
        with k show ?thesis by simp
      next
        case 2
        from Cons.IH [OF this] show ?thesis by simp
      qed
    qed
  qed
qed

lemma length_trim: "length (trim s) \<le> length s"
proof -
  have "length (trim s) \<le> length (dropWhile is_space s)"
    unfolding trim_def using length_dropWhile_le [of is_space "rev (dropWhile is_space s)"] by simp
  also have "\<dots> \<le> length s" by (rule length_dropWhile_le)
  finally show ?thesis .
qed

lemma length_extractContext: "length (extractContext text index k) \<le> 2 * k"
proof -
  have "length (extractContext text index k)
          \<le> length (js_slice text (index - k) (min (length text) (index + k)))"
    unfolding extractContext_def Let_def by (rule length_trim)
  also have "\<dots> \<le> 2 * k" by (simp add: js_slice_def)
  finally show ?thesis .
qed

text \<open>
  C9 (amended): the context recorded for a match that starts at index \<open>i\<close> of a page's raw text
  is the text from index \<open>i - 50\<close> (or 0) up to index \<open>i + 50\<close> (or the end of the text), with
  leading and trailing whitespace trimmed; it has at most 100 characters.
\<close>

theorem context_window:
  assumes "r \<in> set (findCrossReferences content)"
  shows "\<exists>pg i. pg \<in> set (ex_pages content) \<and> cr_pageNumber r = pg_pageNumber pg
           \<and> i < length (pg_rawText pg)
           \<and> cr_fullMatch r \<noteq> []
           \<and> cr_fullMatch r = js_slice (pg_rawText pg) i (i + length (cr_fullMatch r))
           \<and> cr_context r
               = trim (js_slice (pg_rawText pg) (i - 50) (min (length (pg_rawText pg)) (i + 50)))
           \<and> length (cr_context r) \<le> 100"
proof -
  from assms obtain pg pat i n grp
    where pg: "pg \<in> set (ex_pages content)"
      and m: "(i, n, grp) \<in> set (scan_matches pat (pg_rawText pg) 0 0)"
      and r: "r = make_reference pg pat (i, n, grp)"
    by (auto simp: findCrossReferences_def page_references_def)
  from scan_matches_bounds [OF m] have b: "i + n \<le> length (pg_rawText pg)" "0 < n" by simp_all
  have full: "cr_fullMatch r = js_slice (pg_rawText pg) i (i + n)"
    by (simp add: r make_reference_def)
  with b have len: "length (cr_fullMatch r) = n" by (simp add: js_slice_def)
  have ctx: "cr_context r = extractContext (pg_rawText pg) i 50"
    by (simp add: r make_reference_def)
  have "length (cr_context r) \<le> 100"
    unfolding ctx using length_extractContext [of "pg_rawText pg" i 50] by simp
  moreover have "cr_context r
      = trim (js_slice (pg_rawText pg) (i - 50) (min (length (pg_rawText pg)) (i + 50)))"
    by (simp add: ctx extractContext_def)
  moreover have "cr_pageNumber r = pg_pageNumber pg" by (simp add: r make_reference_def)
  moreover have "cr_fullMatch r \<noteq> []" using len b by auto
  moreover have "i < length (pg_rawText pg)" using b by simp
  ultimately show ?thesis using pg full len by blast
qed

lemma scan_hit:
  "match_here pat (c # cs) = Some (n, grp) \<Longrightarrow> j = i
   \<Longrightarrow> (j, n, grp) \<in> set (scan_matches pat (c # cs) i 0)"
  by simp

lemma scan_miss:
  "match_here pat (c # cs) = None \<Longrightarrow> m \<in> set (scan_matches pat cs (Suc i) 0)
   \<Longrightarrow> m \<in> set (scan_matches pat (c # cs) i 0)"
  by simp

lemma reference_found:
  "pg \<in> set (ex_pages content) \<Longrightarrow> pat \<in> set patterns
   \<Longrightarrow> m \<in> set (scan_matches pat (pg_rawText pg) 0 0)
   \<Longrightarrow> make_reference pg pat m \<in> set (findCrossReferences content)"
  by (auto simp: findCrossReferences_def page_references_def)

lemma reference_text:
  "pg_rawText reference_page
     = str ''See page 12 of the second volume for the full tables and the calibration data.''"
  by (simp add: reference_page_def page_of_lines_def line_at_def make_line_def token_at_def)
     (simp add: str_def trim_def is_space_def)

lemma reference_page_fields [simp]:
  "pg_pageNumber reference_page = 1" "ex_pages reference_document = [reference_page]"
  by (simp_all add: reference_page_def page_of_lines_def reference_document_def
      extract_document_def)

lemmas match_eval =
  match_here_def match_word_def match_group_def starts_with_ci_def lower_def is_space_def
  is_digit_def is_letter_def Let_def

lemma reference_match:
  "(4, 7, str ''12'') \<in> set (scan_matches \<lparr> rp_type = str ''page'',
       rp_words = [str ''page'', str ''p.''], rp_group = Digits \<rparr> (pg_rawText reference_page) 0 0)"
  unfolding reference_text
  apply (simp add: str_def del: scan_matches.simps)
  apply (rule scan_miss, simp add: match_eval)
  apply (rule scan_miss, simp add: match_eval)
  apply (rule scan_miss, simp add: match_eval)
  apply (rule scan_miss, simp add: match_eval)
  apply (rule scan_hit)
   apply (simp_all add: match_eval)
  done

lemma reference_made:
  "make_reference reference_page \<lparr> rp_type = str ''page'',
       rp_words = [str ''page'', str ''p.''], rp_group = Digits \<rparr> (4, 7, str ''12'')
     = page_reference"
  unfolding make_reference_def page_reference_def reference_text
  by (simp add: extractContext_def js_slice_def str_def trim_def is_space_def)

lemma page_reference_found: "page_reference \<in> set (findCrossReferences reference_document)"
proof -
  have "make_reference reference_page \<lparr> rp_type = str ''page'',
       rp_words = [str ''page'', str ''p.''], rp_group = Digits \<rparr> (4, 7, str ''12'')
          \<in> set (findCrossReferences reference_document)"
    by (rule reference_found [OF _ _ reference_match]) (simp_all add: patterns_def)
  then show ?thesis by (simp only: reference_made)
qed

text \<open>
  C9 (as stated): the recorded context is a 50-character window centred on the match.  For a
  sentence of 78 characters with \<open>page 12\<close> at index 4 the recorded context has 54 characters:
  the window runs from 50 characters before the start of the match to 50 characters after it.
\<close>

theorem context_window_counterexample:
  "page_reference \<in> set (findCrossReferences reference_document)
   \<and> cr_fullMatch page_reference = str ''page 12''
   \<and> length (cr_context page_reference) = 54"
  by (simp add: page_reference_found) (simp add: page_reference_def str_def)

theorem context_window_witness:
  "page_reference \<in> set (findCrossReferences reference_document)
   \<and> (\<exists>pg i. pg \<in> set (ex_pages reference_document)
         \<and> cr_pageNumber page_reference = pg_pageNumber pg
         \<and> i < length (pg_rawText pg)
         \<and> cr_fullMatch page_reference \<noteq> []
         \<and> cr_fullMatch page_reference
             = js_slice (pg_rawText pg) i (i + length (cr_fullMatch page_reference))
         \<and> cr_context page_reference
             = trim (js_slice (pg_rawText pg) (i - 50) (min (length (pg_rawText pg)) (i + 50)))
         \<and> length (cr_context page_reference) \<le> 100)"
  using context_window [OF page_reference_found] page_reference_found by blast

section \<open>Properties of the reading order\<close>

subsection \<open>Rounding to a double\<close>

lemma binade_bounds:
  assumes "x \<noteq> 0"
  shows "2 powi binade x \<le> \<bar>x\<bar>" and "\<bar>x\<bar> < 2 powi (binade x + 1)"
proof -
  have "2 powi binade x \<le> \<bar>x\<bar> \<and> \<bar>x\<bar> < 2 powi (binade x + 1)"
  proof (cases "1 \<le> \<bar>x\<bar>")
    case True
    define n where "n = \<lfloor>\<bar>x\<bar>\<rfloor>"
    from True have n: "0 < n" by (simp add: n_def)
    then have b: "1 \<le> bitlen n" using bitlen_eq_zero_iff [of n] bitlen_nonneg [of n] by linarith
    from bitlen_bounds [OF n] have lo: "2 ^ nat (bitlen n - 1) \<le> n" and hi: "n < 2 ^ nat (bitlen n)"
      by simp_all
    have e: "binade x = bitlen n - 1" using True by (simp add: binade_def n_def)
    have "(2::real) powi (bitlen n - 1) = 2 ^ nat (bitlen n - 1)"
      using b by (simp add: power_int_def)
    also have "\<dots> = of_int (2 ^ nat (bitlen n - 1))" by simp
    also have "\<dots> \<le> of_int n" using lo by (simp only: of_int_le_iff)
    also have "\<dots> \<le> \<bar>x\<bar>" by (simp add: n_def)
    finally have 1: "2 powi binade x \<le> \<bar>x\<bar>" by (simp add: e)
    have "\<bar>x\<bar> < of_int (n + 1)" by (simp add: n_def)
    also have "\<dots> \<le> of_int (2 ^ nat (bitlen n))" using hi by (simp only: of_int_le_iff) 
    also have "\<dots> = (2::real) powi (bitlen n)" using b by (simp add: power_int_def)
    finally have 2: "\<bar>x\<bar> < 2 powi (binade x + 1)" by (simp add: e)
    from 1 2 show ?thesis ..
  next
    case False
    define t where "t = 1 / \<bar>x\<bar>"
    define m where "m = \<lceil>t\<rceil> - 1"
    from False assms have t: "1 < t" by (simp add: t_def)
    then have "2 \<le> \<lceil>t\<rceil>" by linarith
    then have m: "0 < m" by (simp add: m_def)
    have mt: "of_int m < t" "t \<le> of_int m + 1" by (simp_all add: m_def) linarith+
    from m have b: "1 \<le> bitlen m" using bitlen_eq_zero_iff [of m] bitlen_nonneg [of m] by linarith
    from bitlen_bounds [OF m] have lo: "2 ^ nat (bitlen m - 1) \<le> m" and hi: "m < 2 ^ nat (bitlen m)"
      by simp_all
    have e: "binade x = - bitlen m" using False by (simp add: binade_def m_def t_def)
    have x: "\<bar>x\<bar> = 1 / t" by (simp add: t_def)
    have "t \<le> of_int (m + 1)" using mt by simp
    also have "\<dots> \<le> of_int (2 ^ nat (bitlen m))" using hi by (simp only: of_int_le_iff) 
    also have "\<dots> = 2 ^ nat (bitlen m)" by simp
    finally have "1 / 2 ^ nat (bitlen m) \<le> 1 / t" using t by (simp add: frac_le)
    moreover have "(2::real) powi (- bitlen m) = 1 / 2 ^ nat (bitlen m)"
      using b by (simp add: power_int_def field_simps)
    ultimately have 1: "2 powi binade x \<le> \<bar>x\<bar>" by (simp add: e x)
    have "(2::real) ^ nat (bitlen m - 1) = of_int (2 ^ nat (bitlen m - 1))" by simp
    also have "\<dots> \<le> of_int m" using lo by (simp only: of_int_le_iff)
    also have "\<dots> < t" by (rule mt)
    finally have "1 / t < 1 / 2 ^ nat (bitlen m - 1)" by (simp add: frac_less2)
    moreover have "(2::real) powi (- bitlen m + 1) = 1 / 2 ^ nat (bitlen m - 1)"
    proof -
      have "- bitlen m + 1 = - (bitlen m - 1)" by simp
      then have "(2::real) powi (- bitlen m + 1) = inverse (2 powi (bitlen m - 1))"
        by (simp only: power_int_minus)
      also have "\<dots> = 1 / 2 ^ nat (bitlen m - 1)" using b by (simp add: power_int_def field_simps)
      finally show ?thesis .
    qed
    ultimately have 2: "\<bar>x\<bar> < 2 powi (binade x + 1)" by (simp add: e x)
    from 1 2 show ?thesis ..
  qed
  then show "2 powi binade x \<le> \<bar>x\<bar>" and "\<bar>x\<bar> < 2 powi (binade x + 1)" by simp_all
qed


lemma binade_unique:
  assumes "x \<noteq> 0" and "2 powi k \<le> \<bar>x\<bar>" and "\<bar>x\<bar> < 2 powi (k + 1)"
  shows "binade x = k"
proof -
  have "(2::real) powi k < 2 powi (binade x + 1)"
    using assms(2) binade_bounds(2) [OF assms(1)] by simp
  then have "k < binade x + 1"
    by (rule contrapos_pp) (simp add: not_less power_int_increasing)
  moreover have "(2::real) powi binade x < 2 powi (k + 1)"
    using assms(3) binade_bounds(1) [OF assms(1)] by simp
  then have "binade x < k + 1"
    by (rule contrapos_pp) (simp add: not_less power_int_increasing)
  ultimately show ?thesis by simp
qed

lemma binade_mono:
  assumes "x \<noteq> 0" and "\<bar>x\<bar> \<le> \<bar>y\<bar>"
  shows "binade x \<le> binade y"
proof -
  from assms have y: "y \<noteq> 0" by auto
  have "(2::real) powi binade x < 2 powi (binade y + 1)"
    using binade_bounds(1) [OF assms(1)] binade_bounds(2) [OF y] assms(2) by simp
  then have "binade x < binade y + 1"
    by (rule contrapos_pp) (simp add: not_less power_int_increasing)
  then show ?thesis by simp
qed

lemma binade_minus [simp]: "binade (- x) = binade x"
  by (simp add: binade_def)

lemma ulp_exponent_minus [simp]: "ulp_exponent (- x) = ulp_exponent x"
  by (simp add: ulp_exponent_def)

lemma round_even_int [simp]: "round_even (of_int n) = n"
  by (simp add: round_even_def)

lemma round_even_bounds: "\<lfloor>q\<rfloor> \<le> round_even q" "round_even q \<le> \<lfloor>q\<rfloor> + 1"
  by (simp_all add: round_even_def)

lemma round_even_mono:
  assumes "q \<le> r"
  shows "round_even q \<le> round_even r"
proof (cases "\<lfloor>q\<rfloor> = \<lfloor>r\<rfloor>")
  case True
  with assms show ?thesis by (auto simp: round_even_def)
next
  case False
  with assms have "\<lfloor>q\<rfloor> + 1 \<le> \<lfloor>r\<rfloor>" using floor_mono [OF assms] by linarith
  with round_even_bounds(2) [of q] round_even_bounds(1) [of r] show ?thesis by linarith
qed

lemma round_even_minus: "round_even (- q) = - round_even q"
proof (cases "q \<in> \<int>")
  case True
  then obtain n where "q = of_int n" by (auto elim: Ints_cases)
  then have "round_even (- q) = round_even (of_int (- n))" by simp
  also have "\<dots> = - n" by (rule round_even_int)
  finally show ?thesis using \<open>q = of_int n\<close> by simp
next
  case False
  then have "q \<noteq> of_int \<lfloor>q\<rfloor>" by (metis Ints_of_int)
  then have f: "\<lfloor>- q\<rfloor> = - \<lfloor>q\<rfloor> - 1"
    by (simp add: floor_minus ceiling_altdef)
  show ?thesis
    unfolding round_even_def f by (auto simp: algebra_simps)
qed

lemma round_double_minus: "round_double (- x) = - round_double x"
  by (simp add: round_double_def round_even_minus)

lemma round_double_nonneg: "0 \<le> x \<Longrightarrow> 0 \<le> round_double x"
proof -
  assume "0 \<le> x"
  then have "0 \<le> x / 2 powi ulp_exponent x" by simp
  from round_even_mono [OF this] have "0 \<le> round_even (x / 2 powi ulp_exponent x)"
    using round_even_int [of 0] by simp
  then show ?thesis by (simp add: round_double_def)
qed

text \<open>A number whose quotient by its unit in the last place is an integer is not changed.\<close>

lemma round_double_exact:
  assumes "x / 2 powi ulp_exponent x = of_int n"
  shows "round_double x = x"
proof -
  have "(2::real) powi ulp_exponent x \<noteq> 0" by simp
  with assms have "x = of_int n * 2 powi ulp_exponent x" by (simp add: field_simps)
  with assms show ?thesis by (simp add: round_double_def)
qed

lemma ulp_exponent_mono: "x \<noteq> 0 \<Longrightarrow> \<bar>x\<bar> \<le> \<bar>y\<bar> \<Longrightarrow> ulp_exponent x \<le> ulp_exponent y"
  using binade_mono [of x y] by (simp add: ulp_exponent_def)

lemma round_double_mono_pos:
  assumes "0 < x" and "x \<le> y"
  shows "round_double x \<le> round_double y"
proof (cases "ulp_exponent x = ulp_exponent y")
  case True
  have "x / 2 powi ulp_exponent y \<le> y / 2 powi ulp_exponent y"
    using assms(2) by (simp add: divide_right_mono)
  from round_even_mono [OF this] show ?thesis
    by (simp add: round_double_def True mult_right_mono)
next
  case False
  define ex ey where "ex = ulp_exponent x" and "ey = ulp_exponent y"
  from assms have nz: "x \<noteq> 0" "y \<noteq> 0" by simp_all
  from assms ulp_exponent_mono [of x y] False have lt: "ex < ey" by (simp add: ex_def ey_def)
  then have yn: "ey = binade y - 52" and bx: "binade x - 52 \<le> ex"
    by (auto simp: ex_def ey_def ulp_exponent_def max_def split: if_splits)
  have pos: "0 < (2::real) powi ex" "0 < (2::real) powi ey" by simp_all
  have "x < 2 powi (binade x + 1)" using binade_bounds(2) [OF nz(1)] assms(1) by simp
  also have "\<dots> \<le> 2 powi (ex + 53)" using bx by (simp add: power_int_increasing)
  also have "\<dots> = 2 ^ 53 * 2 powi ex" by (simp add: power_int_add)
  finally have "x / 2 powi ex \<le> of_int (2 ^ 53)" using pos(1) by (simp add: field_simps)
  from round_even_mono [OF this] have "round_even (x / 2 powi ex) \<le> 2 ^ 53"
    by (simp only: round_even_int)
  then have "of_int (round_even (x / 2 powi ex)) \<le> (2::real) ^ 53"
    by (metis of_int_le_iff of_int_numeral of_int_power)
  then have "round_double x \<le> 2 ^ 53 * 2 powi ex"
    by (simp add: round_double_def ex_def [symmetric] mult_right_mono)
  also have "\<dots> = 2 powi (ex + 53)" by (simp add: power_int_add)
  also have "\<dots> \<le> 2 powi (ey + 52)" using lt by (simp add: power_int_increasing)
  also have "\<dots> = 2 ^ 52 * 2 powi ey" by (simp add: power_int_add)
  finally have upper: "round_double x \<le> 2 ^ 52 * 2 powi ey" .
  have "2 powi (ey + 52) \<le> y" using binade_bounds(1) [OF nz(2)] assms by (simp add: yn)
  then have "of_int (2 ^ 52) \<le> y / 2 powi ey"
    using pos(2) by (simp add: power_int_add field_simps)
  from round_even_mono [OF this] have "2 ^ 52 \<le> round_even (y / 2 powi ey)"
    by (simp only: round_even_int)
  then have "(2::real) ^ 52 \<le> of_int (round_even (y / 2 powi ey))"
    by (metis of_int_le_iff of_int_numeral of_int_power)
  then have "2 ^ 52 * 2 powi ey \<le> round_double y"
    by (simp add: round_double_def ey_def [symmetric] mult_right_mono)
  with upper show ?thesis by simp
qed

lemma round_double_mono:
  assumes "x \<le> y"
  shows "round_double x \<le> round_double y"
proof -
  consider "0 < x" | "x \<le> 0" "0 \<le> y" | "y < 0" by linarith
  then show ?thesis
  proof cases
    case 1
    from round_double_mono_pos [OF 1 assms] show ?thesis .
  next
    case 2
    from round_double_nonneg [of "- x"] 2(1) have "round_double x \<le> 0"
      by (simp add: round_double_minus)
    with round_double_nonneg [OF 2(2)] show ?thesis by simp
  next
    case 3
    with assms have "0 < - y" "- y \<le> - x" by simp_all
    from round_double_mono_pos [OF this] show ?thesis by (simp add: round_double_minus)
  qed
qed

lemma round_double_int:
  assumes "\<bar>n\<bar> < 2 ^ 53"
  shows "round_double (of_int n) = of_int n"
proof (cases "n = 0")
  case True
  have "(0::real) / 2 powi ulp_exponent 0 = of_int 0" by simp
  from round_double_exact [OF this] True show ?thesis by simp
next
  case False
  define x :: real where "x = of_int n"
  from False have nz: "x \<noteq> 0" by (simp add: x_def)
  have "\<bar>x\<bar> < 2 ^ 53" using assms unfolding x_def
    by (metis of_int_abs of_int_less_iff of_int_numeral of_int_power)
  then have lt: "(2::real) powi binade x < 2 powi 53"
    using binade_bounds(1) [OF nz] by simp
  have "binade x < 53"
  proof (rule ccontr)
    assume "\<not> binade x < 53"
    then have "(2::real) powi 53 \<le> 2 powi binade x"
      by (intro power_int_increasing) simp_all
    with lt show False by simp
  qed
  then have e: "ulp_exponent x \<le> 0" by (simp add: ulp_exponent_def)
  have "(2::real) powi ulp_exponent x = inverse (2 powi (- ulp_exponent x))"
    by (simp add: power_int_minus)
  moreover have "(2::real) powi (- ulp_exponent x) = 2 ^ nat (- ulp_exponent x)"
    using e by (simp add: power_int_def)
  ultimately have "(2::real) powi ulp_exponent x = inverse (2 ^ nat (- ulp_exponent x))"
    by simp
  then have "x / 2 powi ulp_exponent x = of_int (n * 2 ^ nat (- ulp_exponent x))"
    by (simp add: x_def divide_inverse)
  from round_double_exact [OF this] show ?thesis by (simp add: x_def)
qed

lemma round_double_grid: "\<exists>k::int. round_double x = of_int k * least_double"
proof -
  define e where "e = ulp_exponent x"
  have "- 1074 \<le> e" by (simp add: e_def ulp_exponent_def)
  then have "e = int (nat (e + 1074)) + (- 1074)" by simp
  then have "(2::real) powi e = 2 powi (int (nat (e + 1074))) * 2 powi (- 1074)"
    by (metis power_int_add zero_neq_numeral)
  then have "(2::real) powi e = of_int (2 ^ nat (e + 1074)) * least_double"
    by (simp only: power_int_of_nat of_int_power of_int_numeral least_double_def)
  then have "round_double x
               = of_int (round_even (x / 2 powi e) * 2 ^ nat (e + 1074)) * least_double"
    by (simp add: round_double_def e_def [symmetric])
  then show ?thesis ..
qed

lemma least_double_positive: "0 < least_double"
  by (simp add: least_double_def)

lemma round_double_least: "round_double least_double = least_double"
proof -
  have "least_double \<noteq> 0" using least_double_positive by simp
  moreover have "2 powi (- 1074) \<le> \<bar>least_double\<bar>" by (simp add: least_double_def)
  moreover have "\<bar>least_double\<bar> < 2 powi (- 1074 + 1)"
    unfolding least_double_def by (simp add: power_int_strict_increasing)
  ultimately have "binade least_double = - 1074" by (rule binade_unique)
  then have "ulp_exponent least_double = - 1074" by (simp add: ulp_exponent_def)
  then have "least_double / 2 powi ulp_exponent least_double = of_int 1"
    by (simp add: least_double_def)
  from round_double_exact [OF this] show ?thesis .
qed

text \<open>The difference of two doubles keeps its sign when rounded.\<close>

lemma round_double_sign:
  fixes j k :: int
  assumes "u = of_int j * least_double" and "v = of_int k * least_double"
  shows "(round_double (u - v) \<le> 0) = (u \<le> v)"
proof (cases "u \<le> v")
  case True
  then have "u - v \<le> 0" by simp
  from round_double_mono [OF this] round_double_int [of 0] True show ?thesis by simp
next
  case False
  note g = least_double_positive
  from False assms g have "k < j" by (simp add: mult_less_cancel_right)
  then have "1 \<le> j - k" by simp
  then have "(1::real) \<le> of_int (j - k)" by (simp only: of_int_1_le_iff)
  then have "1 * least_double \<le> of_int (j - k) * least_double"
    using g by (simp only: mult_le_cancel_right) simp
  then have "least_double \<le> u - v" by (simp add: assms algebra_simps)
  from round_double_mono [OF this] g have "0 < round_double (u - v)"
    by (simp only: round_double_least)
  with False show ?thesis by simp
qed

lemma fl_not_NaN [simp]: "fl x \<noteq> NaN"
  by (simp add: fl_def)

lemma fl_mono: "x \<le> y \<Longrightarrow> order_le (fl x) (fl y)"
  using round_double_mono [of x y] by (simp add: fl_def)

lemma fl_int:
  assumes "\<bar>n\<bar> < 2 ^ 53"
  shows "fl (of_int n) = Finite (of_int n)"
proof -
  have "\<bar>real_of_int n\<bar> < 2 ^ 53" using assms
    by (metis of_int_abs of_int_less_iff of_int_numeral of_int_power)
  also have "\<dots> < (2::real) ^ 1024" by (simp add: power_strict_increasing)
  finally have "\<not> 2 ^ 1024 \<le> real_of_int n" "\<not> real_of_int n \<le> - (2 ^ 1024)" by linarith+
  then show ?thesis by (simp only: fl_def round_double_int [OF assms] if_False)
qed

lemma fl_numeral:
  "numeral k < (2::int) ^ 53 \<Longrightarrow> fl (numeral k) = Finite (numeral k)"
  "numeral k < (2::int) ^ 53 \<Longrightarrow> fl (- numeral k) = Finite (- numeral k)"
  "fl 0 = Finite 0"
  "fl 1 = Finite 1"
  using fl_int [of "numeral k"] fl_int [of "- numeral k"] fl_int [of 0] fl_int [of 1]
  by simp_all

lemma fl_grid: "fl x = Finite v \<Longrightarrow> \<exists>k::int. v = of_int k * least_double"
proof -
  assume "fl x = Finite v"
  then have "v = round_double x" by (simp add: fl_def split: if_splits)
  with round_double_grid [of x] show ?thesis by simp
qed

lemma order_le_trans: "order_le a b \<Longrightarrow> order_le b c \<Longrightarrow> order_le a c"
  by (cases a; cases b; cases c) simp_all

lemma order_le_lt_trans: "order_le a b \<Longrightarrow> order_lt b c \<Longrightarrow> order_lt a c"
  by (cases a; cases b; cases c) simp_all

lemma order_lt_le_trans: "order_lt a b \<Longrightarrow> order_le b c \<Longrightarrow> order_lt a c"
  by (cases a; cases b; cases c) simp_all

lemma order_le_total: "a \<noteq> NaN \<Longrightarrow> b \<noteq> NaN \<Longrightarrow> order_le a b \<or> order_le b a"
  by (cases a; cases b) auto

lemma double_add_finite_not_NaN: "b \<noteq> NaN \<Longrightarrow> double_add (Finite c) b \<noteq> NaN"
  by (cases b) simp_all

lemma double_add_mono:
  "order_le x y \<Longrightarrow> order_le (double_add (Finite c) x) (double_add (Finite c) y)"
proof (cases x; cases y)
  fix u v assume "order_le x y" "x = Finite u" "y = Finite v"
  then show ?thesis by (simp add: fl_mono)
next
  fix u assume "x = Finite u" "y = PosInf"
  then show ?thesis by (cases "fl (c + u)") simp_all
next
  fix v assume "x = NegInf" "y = Finite v"
  then show ?thesis by (cases "fl (c + v)") simp_all
qed simp_all

lemma double_add_grid:
  "double_add a b = Finite v \<Longrightarrow> \<exists>k::int. v = of_int k * least_double"
  by (cases a; cases b) (simp_all add: fl_grid)

text \<open>
  On doubles that are results of an addition the comparator \<^verbatim>\<open>a - b\<close> orders as \<^verbatim>\<open><=\<close> does.
\<close>

lemma comparator_order:
  assumes "a \<noteq> NaN" and "b \<noteq> NaN"
    and "\<And>v. a = Finite v \<Longrightarrow> \<exists>k::int. v = of_int k * least_double"
    and "\<And>v. b = Finite v \<Longrightarrow> \<exists>k::int. v = of_int k * least_double"
  shows "(comparator_value (double_sub a b) \<le> 0) = order_le a b"
proof (cases a; cases b)
  fix u v assume ab: "a = Finite u" "b = Finite v"
  with assms(3,4) obtain j k :: int
    where u: "u = of_int j * least_double" and v: "v = of_int k * least_double"
    by blast
  have s: "(round_double (u - v) \<le> 0) = (u \<le> v)" using u v by (rule round_double_sign)
  have "(comparator_value (fl (u - v)) \<le> 0) = (round_double (u - v) \<le> 0)"
    by (simp add: fl_def)
  with s ab show ?thesis by (simp add: double_sub_def)
qed (use assms(1,2) in \<open>simp_all add: double_sub_def\<close>)

subsection \<open>Sorting by a total preorder\<close>

lemma set_js_insort: "set (js_insort cmp a xs) = insert a (set xs)"
  by (induction xs) auto

lemma js_insort_sorted:
  assumes trans: "\<And>a b c. R a b \<Longrightarrow> R b c \<Longrightarrow> R a c"
  shows "sorted_wrt R xs \<Longrightarrow> (\<And>b. b \<in> set xs \<Longrightarrow> (cmp a b \<le> 0) = R a b)
           \<Longrightarrow> (\<And>b. b \<in> set xs \<Longrightarrow> R a b \<or> R b a)
           \<Longrightarrow> sorted_wrt R (js_insort cmp a xs)"
proof (induction xs)
  case Nil
  show ?case by simp
next
  case (Cons b bs)
  have sorted: "sorted_wrt R bs" and below: "\<And>c. c \<in> set bs \<Longrightarrow> R b c"
    using Cons.prems(1) by simp_all
  have b: "b \<in> set (b # bs)" by simp
  show ?case
  proof (cases "cmp a b \<le> 0")
    case True
    with Cons.prems(2) [OF b] have ab: "R a b" by simp
    have "R a c" if "c \<in> set bs" for c
      using trans [OF ab below [OF that]] .
    with ab have "sorted_wrt R (a # b # bs)" using Cons.prems(1) by simp
    with True show ?thesis by simp
  next
    case False
    with Cons.prems(2) [OF b] have "\<not> R a b" by simp
    with Cons.prems(3) [OF b] have ba: "R b a" by simp
    have "sorted_wrt R (js_insort cmp a bs)"
    proof (rule Cons.IH [OF sorted])
      fix c assume "c \<in> set bs"
      then have c: "c \<in> set (b # bs)" by simp
      show "(cmp a c \<le> 0) = R a c" by (rule Cons.prems(2) [OF c])
      show "R a c \<or> R c a" by (rule Cons.prems(3) [OF c])
    qed
    moreover have "R b c" if "c \<in> set (js_insort cmp a bs)" for c
      using that ba below by (auto simp only: set_js_insort)
    ultimately have "sorted_wrt R (b # js_insort cmp a bs)" by simp
    with False show ?thesis by simp
  qed
qed

lemma js_sort_sorted:
  assumes trans: "\<And>a b c. R a b \<Longrightarrow> R b c \<Longrightarrow> R a c"
  shows "(\<And>a b. a \<in> set xs \<Longrightarrow> b \<in> set xs \<Longrightarrow> (cmp a b \<le> 0) = R a b)
           \<Longrightarrow> (\<And>a b. a \<in> set xs \<Longrightarrow> b \<in> set xs \<Longrightarrow> R a b \<or> R b a)
           \<Longrightarrow> sorted_wrt R (js_sort cmp xs)"
proof (induction xs)
  case Nil
  show ?case by (simp add: js_sort_def)
next
  case (Cons x xs)
  have tail: "a \<in> set (x # xs)" if "a \<in> set xs" for a using that by simp
  have x: "x \<in> set (x # xs)" by simp
  have s: "sorted_wrt R (js_sort cmp xs)"
  proof (rule Cons.IH)
    fix a b assume "a \<in> set xs" "b \<in> set xs"
    then have ab: "a \<in> set (x # xs)" "b \<in> set (x # xs)" by simp_all
    show "(cmp a b \<le> 0) = R a b" by (rule Cons.prems(1) [OF ab])
    show "R a b \<or> R b a" by (rule Cons.prems(2) [OF ab])
  qed
  have "sorted_wrt R (js_insort cmp x (js_sort cmp xs))"
  proof (rule js_insort_sorted [where R = R, OF trans s])
    fix b assume "b \<in> set (js_sort cmp xs)"
    then have b: "b \<in> set (x # xs)" by (simp add: set_js_sort)
    show "(cmp x b \<le> 0) = R x b" by (rule Cons.prems(1) [OF x b])
    show "R x b \<or> R b x" by (rule Cons.prems(2) [OF x b])
  qed
  then show ?case by (simp add: js_sort_def)
qed

subsection \<open>The order of the elements\<close>

lemma page_elements_ok: "e \<in> set (page_elements st pg) \<Longrightarrow> element_ok e"
  by (auto simp: page_elements_def element_ok_def heading_element_def paragraph_element_def
      list_element_def table_element_def)

lemma reading_order_elements_ok:
  "e \<in> set (determineReadingOrder content) \<Longrightarrow> element_ok e"
  by (auto simp: determineReadingOrder_def set_js_sort page_elements_ok)

text \<open>Below \<open>2 ^ 39\<close> the product \<^verbatim>\<open>pageNumber * 10000\<close> and the integers next to it are exact.\<close>

lemma page_base_exact:
  assumes "p < 2 ^ 39" and "\<bar>d\<bar> \<le> 10000"
  shows "fl (real p * 10000 + of_int d) = Finite (real p * 10000 + of_int d)"
proof -
  from assms(1) have "int p < 2 ^ 39" by (metis of_nat_less_iff of_nat_numeral of_nat_power)
  with assms(2) have "\<bar>int p * 10000 + d\<bar> < 2 ^ 53" by simp
  from fl_int [OF this] show ?thesis by simp
qed

lemma order_value:
  assumes "element_ok e" and "ToNumber (e_y e) = Some v" and "e_pageNumber e < 2 ^ 39"
  shows "e_order e = double_add (Finite (real (e_pageNumber e) * 10000)) (fl (10000 - v))"
  using assms page_base_exact [of "e_pageNumber e" 0]
  by (simp add: element_ok_def calculateReadingOrder_def double_sub_def to_double_def)

lemma order_is_double:
  assumes "element_ok e" and "e_y e \<noteq> Undefined" and "e_pageNumber e < 2 ^ 39"
  shows "e_order e \<noteq> NaN"
    and "e_order e = Finite w \<Longrightarrow> \<exists>k::int. w = of_int k * least_double"
proof -
  from assms(2) obtain v where "ToNumber (e_y e) = Some v" by (cases "e_y e") simp_all
  from order_value [OF assms(1) this assms(3)]
  have o: "e_order e = double_add (Finite (real (e_pageNumber e) * 10000)) (fl (10000 - v))" .
  then show "e_order e \<noteq> NaN" by (simp add: double_add_finite_not_NaN)
  show "\<exists>k::int. w = of_int k * least_double" if "e_order e = Finite w"
    using that o double_add_grid by metis
qed

lemma order_across_pages:
  assumes "element_ok a" and "element_ok b"
    and "e_pageNumber a < e_pageNumber b" and "e_pageNumber b < 2 ^ 39"
    and "ToNumber (e_y a) = Some ya" and "ToNumber (e_y b) = Some yb"
    and "0 \<le> ya" and "yb \<le> 9999"
  shows "order_lt (e_order a) (e_order b)"
proof -
  define A B where "A = real (e_pageNumber a) * 10000" and "B = real (e_pageNumber b) * 10000"
  from assms(3,4) have pa: "e_pageNumber a < 2 ^ 39" by simp
  have oa: "e_order a = double_add (Finite A) (fl (10000 - ya))"
    unfolding A_def by (rule order_value [OF assms(1,5) pa])
  have ob: "e_order b = double_add (Finite B) (fl (10000 - yb))"
    unfolding B_def by (rule order_value [OF assms(2,6,4)])
  have "order_le (fl (10000 - ya)) (fl 10000)" using assms(7) by (intro fl_mono) simp
  then have "order_le (fl (10000 - ya)) (Finite 10000)" by (simp add: fl_numeral)
  from double_add_mono [OF this] have "order_le (e_order a) (fl (A + 10000))"
    by (simp add: oa)
  moreover have "fl (A + 10000) = Finite (A + 10000)"
    using page_base_exact [OF pa, of 10000] by (simp add: A_def)
  ultimately have upper: "order_le (e_order a) (Finite (A + 10000))" by simp
  have "order_le (fl 1) (fl (10000 - yb))" using assms(8) by (intro fl_mono) simp
  then have "order_le (Finite 1) (fl (10000 - yb))" by (simp add: fl_numeral)
  from double_add_mono [OF this] have "order_le (fl (B + 1)) (e_order b)"
    by (simp add: ob)
  moreover have "fl (B + 1) = Finite (B + 1)"
    using page_base_exact [OF assms(4), of 1] by (simp add: B_def)
  ultimately have lower: "order_le (Finite (B + 1)) (e_order b)" by simp
  from assms(3) have "real (e_pageNumber a) + 1 \<le> real (e_pageNumber b)" by simp
  then have "A + 10000 < B + 1" by (simp add: A_def B_def)
  then have "order_lt (Finite (A + 10000)) (Finite (B + 1))" by simp
  from order_le_lt_trans [OF upper this] lower show ?thesis by (rule order_lt_le_trans)
qed

text \<open>
  C2 (amended): when every element has a numeric \<open>y\<close> and a page number below \<open>2 ^ 39\<close>, the
  reading order is sorted ascending by \<open>order = pageNumber * 10000 + (10000 - y)\<close>, and an
  element \<open>a\<close> on an earlier page than an element \<open>b\<close> has a strictly smaller \<open>order\<close>
  whenever \<open>a.y \<ge> 0\<close> and \<open>b.y \<le> 9999\<close>.
\<close>

theorem reading_order_pages:
  assumes "Undefined \<notin> e_y ` set (determineReadingOrder content)"
    and "\<forall>e \<in> set (determineReadingOrder content). e_pageNumber e < 2 ^ 39"
  shows "sorted_wrt (\<lambda>a b. order_le (e_order a) (e_order b)) (determineReadingOrder content)
         \<and> (\<forall>a \<in> set (determineReadingOrder content). \<forall>b \<in> set (determineReadingOrder content).
               \<forall>ya yb. e_pageNumber a < e_pageNumber b
                 \<and> ToNumber (e_y a) = Some ya \<and> ToNumber (e_y b) = Some yb
                 \<and> 0 \<le> ya \<and> yb \<le> 9999
               \<longrightarrow> order_lt (e_order a) (e_order b))"
proof
  let ?els = "concat (map (page_elements (ex_structure content)) (ex_pages content))"
  let ?R = "\<lambda>a b. order_le (e_order a) (e_order b)"
  have els: "set ?els = set (determineReadingOrder content)"
    by (simp add: determineReadingOrder_def set_js_sort)
  have double: "e_order e \<noteq> NaN"
    "\<And>w. e_order e = Finite w \<Longrightarrow> \<exists>k::int. w = of_int k * least_double"
    if "e \<in> set ?els" for e
  proof -
    from that have e: "e \<in> set (determineReadingOrder content)" unfolding els .
    with assms have "e_y e \<noteq> Undefined" "e_pageNumber e < 2 ^ 39" by force+
    from order_is_double [OF reading_order_elements_ok [OF e] this]
    show "e_order e \<noteq> NaN"
      "\<And>w. e_order e = Finite w \<Longrightarrow> \<exists>k::int. w = of_int k * least_double"
      by blast+
  qed
  have "sorted_wrt ?R (js_sort order_compare ?els)"
  proof (rule js_sort_sorted [where R = ?R])
    show "order_le (e_order a) (e_order c)"
      if "order_le (e_order a) (e_order b)" "order_le (e_order b) (e_order c)" for a b c
      using that by (rule order_le_trans)
  next
    fix a b assume a: "a \<in> set ?els" and b: "b \<in> set ?els"
    show "(order_compare a b \<le> 0) = order_le (e_order a) (e_order b)"
      unfolding order_compare_def
      by (rule comparator_order [OF double(1) [OF a] double(1) [OF b]
            double(2) [OF a] double(2) [OF b]])
    show "order_le (e_order a) (e_order b) \<or> order_le (e_order b) (e_order a)"
      by (rule order_le_total [OF double(1) [OF a] double(1) [OF b]])
  qed
  then show "sorted_wrt ?R (determineReadingOrder content)"
    by (simp add: determineReadingOrder_def)
  show "\<forall>a \<in> set (determineReadingOrder content). \<forall>b \<in> set (determineReadingOrder content).
          \<forall>ya yb. e_pageNumber a < e_pageNumber b
            \<and> ToNumber (e_y a) = Some ya \<and> ToNumber (e_y b) = Some yb
            \<and> 0 \<le> ya \<and> yb \<le> 9999
          \<longrightarrow> order_lt (e_order a) (e_order b)"
    using order_across_pages reading_order_elements_ok assms(2) by blast
qed

subsection \<open>Two documents of two pages\<close>

lemma plain_trims:
  "trim (str ''last line of page one'') = str ''last line of page one''"
  "trim (str ''first line of page two'') = str ''first line of page two''"
  "str ''last line of page one'' \<noteq> []" "str ''first line of page two'' \<noteq> []"
  by (simp_all add: trim_def str_def is_space_def)

lemma plain_paragraphs:
  "map (c_paragraphs \<circ> pg_content) (plain_pages y1 y2)
     = [[paragraph_at ''last line of page one'' y1 10 False],
        [paragraph_at ''first line of page two'' y2 10 False]]"
  by (simp add: plain_pages_def page_of_lines_def paragraph_eval paragraph_at_def
      line_at_text plain_trims)

lemma plain_text_plain:
  "\<not> hasHeadingPattern (str ''last line of page one'')"
  "\<not> hasHeadingPattern (str ''first line of page two'')"
  "\<not> isBulletPoint (str ''last line of page one'')"
  "\<not> isBulletPoint (str ''first line of page two'')"
  "\<not> isNumberedItem (str ''last line of page one'')"
  "\<not> isNumberedItem (str ''first line of page two'')"
  "\<not> isLetterItem (str ''last line of page one'')"
  "\<not> isLetterItem (str ''first line of page two'')"
  by (simp_all add: hasHeadingPattern_def starts_with_def isBulletPoint_def isNumberedItem_def
      isLetterItem_def str_def is_digit_def is_bullet_def is_dash_def is_letter_def
      is_dot_paren_def is_space_def)

lemma plain_structure: "analyzeStructure (plain_pages y1 y2) = no_structure"
proof -
  have p: "c_paragraphs (pg_content (plain_pages y1 y2 ! 0))
             = [paragraph_at ''last line of page one'' y1 10 False]"
    "c_paragraphs (pg_content (plain_pages y1 y2 ! 1))
             = [paragraph_at ''first line of page two'' y2 10 False]"
    using plain_paragraphs [of y1 y2] by (simp_all add: plain_pages_def)
  have l: "length (c_lines (pg_content (plain_pages y1 y2 ! 0))) = 1"
    "length (c_lines (pg_content (plain_pages y1 y2 ! 1))) = 1"
    by (simp_all add: plain_pages_def page_of_lines_def)
  have t: "identifyTables lns = []" if "length lns = 1" for lns
  proof -
    have "length (potentialTableLines lns) \<le> length lns"
      by (simp add: potentialTableLines_def)
    with that show ?thesis by (simp add: identifyTables_def)
  qed
  have h: "identifyHeadings [paragraph_at ''last line of page one'' y1 10 False] = []"
    "identifyHeadings [paragraph_at ''first line of page two'' y2 10 False] = []"
    by (simp_all add: identifyHeadings_def avgFontSize_def is_heading_def exceeds_def
        paragraph_at_text plain_trims plain_text_plain Let_def)
  have i: "identifyLists [paragraph_at ''last line of page one'' y1 10 False] = []"
    "identifyLists [paragraph_at ''first line of page two'' y2 10 False] = []"
    by (simp_all add: identifyLists_def paragraph_at_text plain_trims plain_text_plain)
  have e: "\<not> pg_error (plain_pages y1 y2 ! 0)" "\<not> pg_error (plain_pages y1 y2 ! 1)"
    by (simp_all add: plain_pages_def page_of_lines_def)
  have two: "plain_pages y1 y2 = [plain_pages y1 y2 ! 0, plain_pages y1 y2 ! 1]"
    by (simp add: plain_pages_def)
  show ?thesis
    apply (subst two)
    apply (simp add: analyzeStructure_def no_structure_def e p h i t [OF l(1)] t [OF l(2)]
        del: One_nat_def)
    done
qed

lemma plain_document:
  "extract_document (plain_pages y1 y2)
     = \<lparr> ex_pages = plain_pages y1 y2, ex_structure = no_structure \<rparr>"
  by (simp add: extract_document_def plain_structure)


lemmas order_eval =
  determineReadingOrder_def page_elements_def paragraph_element_def calculateReadingOrder_def
  page_of_lines_def no_structure_def js_sort_def order_compare_def double_sub_def
  to_double_def fl_numeral
  groupLinesIntoParagraphs_def isNewParagraph_def lineSpacing_def push_paragraph_def
  make_paragraph_def abs_gt_def js_minus_def Let_def
  line_at_def make_line_def token_at_def str_def trim_def is_space_def

lemma tie_order:
  "map e_pageNumber (determineReadingOrder tie_document) = [1, 2]"
  "map e_y (determineReadingOrder tie_document) = [Num 0, Num 10000]"
  "map e_order (determineReadingOrder tie_document) = [Finite 20000, Finite 20000]"
  unfolding tie_document_def plain_document
  by (simp_all add: plain_pages_def order_eval)

text \<open>
  C2 (as stated): an element on an earlier page always has a strictly smaller \<open>order\<close>,
  whatever the \<open>y\<close> values.  It fails for \<open>y = 0\<close> on page 1 and \<open>y = 10000\<close> on page 2: both
  elements get \<open>order = 20000\<close>.
\<close>

theorem reading_order_counterexample:
  "map e_pageNumber (determineReadingOrder tie_document) = [1, 2]
   \<and> map e_y (determineReadingOrder tie_document) = [Num 0, Num 10000]
   \<and> map e_order (determineReadingOrder tie_document) = [Finite 20000, Finite 20000]
   \<and> \<not> order_lt (Finite 20000) (Finite 20000)"
  by (simp add: tie_order)

lemma two_page_order:
  "map e_pageNumber (determineReadingOrder two_page_document) = [1, 2]"
  "map e_y (determineReadingOrder two_page_document) = [Num 60, Num 700]"
  "map e_order (determineReadingOrder two_page_document) = [Finite 19940, Finite 29300]"
  unfolding two_page_document_def plain_document
  by (simp_all add: plain_pages_def order_eval)

theorem reading_order_pages_witness:
  "Undefined \<notin> set (map e_y (determineReadingOrder two_page_document))
   \<and> map e_pageNumber (determineReadingOrder two_page_document) = [1, 2]
   \<and> map e_y (determineReadingOrder two_page_document) = [Num 60, Num 700]
   \<and> sorted_wrt (\<lambda>a b. order_le (e_order a) (e_order b)) (determineReadingOrder two_page_document)
   \<and> order_lt (e_order (hd (determineReadingOrder two_page_document)))
        (e_order (last (determineReadingOrder two_page_document)))"
proof -
  let ?ro = "determineReadingOrder two_page_document"
  have ne: "?ro \<noteq> []" using two_page_order(1) by auto
  have h0: "Undefined \<notin> set (map e_y ?ro)" by (simp add: two_page_order)
  then have h: "Undefined \<notin> e_y ` set ?ro" by simp
  have "\<forall>p \<in> set (map e_pageNumber ?ro). p < 2 ^ 39" by (simp add: two_page_order)
  then have b: "\<forall>e \<in> set ?ro. e_pageNumber e < 2 ^ 39" by simp
  have pages: "e_pageNumber (hd ?ro) = 1" "e_pageNumber (last ?ro) = 2"
    using two_page_order(1) ne by (simp_all flip: hd_map last_map)
  have ys: "ToNumber (e_y (hd ?ro)) = Some 60" "ToNumber (e_y (last ?ro)) = Some 700"
    using two_page_order(2) ne by (simp_all flip: hd_map last_map)
  have mem: "hd ?ro \<in> set ?ro" "last ?ro \<in> set ?ro" using ne by simp_all
  from reading_order_pages [OF h b]
  have sorted: "sorted_wrt (\<lambda>a b. order_le (e_order a) (e_order b)) ?ro"
    and across: "\<And>a b ya yb. a \<in> set ?ro \<Longrightarrow> b \<in> set ?ro \<Longrightarrow> e_pageNumber a < e_pageNumber b
        \<Longrightarrow> ToNumber (e_y a) = Some ya \<Longrightarrow> ToNumber (e_y b) = Some yb
        \<Longrightarrow> 0 \<le> ya \<Longrightarrow> yb \<le> 9999 \<Longrightarrow> order_lt (e_order a) (e_order b)"
    by blast+
  have "order_lt (e_order (hd ?ro)) (e_order (last ?ro))"
    by (rule across [OF mem _ ys]) (simp_all add: pages)
  with h0 sorted two_page_order(1,2) show ?thesis by simp
qed

subsection \<open>A tie made by rounding\<close>

lemma round_double_in_binade:
  assumes "2 powi k \<le> \<bar>x\<bar>" and "\<bar>x\<bar> < 2 powi (k + 1)" and "- 1022 \<le> k"
  shows "round_double x = of_int (round_even (x / 2 powi (k - 52))) * 2 powi (k - 52)"
proof -
  have "0 < (2::real) powi k" by simp
  with assms(1) have "0 < \<bar>x\<bar>" by linarith
  then have "x \<noteq> 0" by simp
  from binade_unique [OF this assms(1,2)] assms(3) have "ulp_exponent x = k - 52"
    by (simp add: ulp_exponent_def)
  then show ?thesis by (simp add: round_double_def)
qed

text \<open>
  A \<open>y\<close> below 10000 on the later page is not enough for a strictly greater \<open>order\<close>: the
  double next below 10000 is \<open>10000 - 1 / 2 ^ 39\<close>, and \<open>20000 + 1 / 2 ^ 39\<close> lies halfway
  between the doubles 20000 and \<open>20000 + 1 / 2 ^ 38\<close>, so that it is rounded to 20000, the
  one with the even significand.
\<close>

lemma order_rounding_tie:
  "calculateReadingOrder 1 (Num 0) = Finite 20000"
  "calculateReadingOrder 2 (Num (10000 - 1 / 2 ^ 39)) = Finite 20000"
proof -
  show "calculateReadingOrder 1 (Num 0) = Finite 20000"
    by (simp add: calculateReadingOrder_def double_sub_def to_double_def fl_numeral)
  have "round_double (1 / 2 ^ 39) = of_int (round_even ((1 / 2 ^ 39) / 2 powi (- 39 - 52))) * 2 powi (- 39 - 52)"
    by (rule round_double_in_binade) (simp_all add: power_int_minus)
  also have "\<dots> = 1 / 2 ^ 39"
    by (simp add: round_even_def power_int_minus)
  finally have small: "fl (1 / 2 ^ 39) = Finite (1 / 2 ^ 39)" by (simp add: fl_def)
  have "round_double (20000 + 1 / 2 ^ 39)
          = of_int (round_even ((20000 + 1 / 2 ^ 39) / 2 powi (14 - 52))) * 2 powi (14 - 52)"
    by (rule round_double_in_binade) simp_all
  also have "\<dots> = 20000"
    by (simp add: round_even_def power_int_minus)
  finally have tie: "fl (20000 + 1 / 2 ^ 39) = Finite 20000" by (simp add: fl_def)
  show "calculateReadingOrder 2 (Num (10000 - 1 / 2 ^ 39)) = Finite 20000"
    using small tie
    by (simp add: calculateReadingOrder_def double_sub_def to_double_def fl_numeral)
qed

end
